theory Spec2Isabelle
  imports Complex_Main "HOL-Library.AList"
begin

section \<open>Strings\<close>

text \<open>
  Go strings are byte sequences; \<open>string\<close> is a list of 8-bit characters.
  \<open>HasPrefix s prefix\<close> and \<open>Contains s substr\<close> are \<open>strings.HasPrefix\<close> and
  \<open>strings.Contains\<close>, with the argument order of the Go functions.
\<close>

fun HasPrefix :: "string \<Rightarrow> string \<Rightarrow> bool" where
  "HasPrefix s [] = True"
| "HasPrefix [] (p # ps) = False"
| "HasPrefix (c # cs) (p # ps) = (c = p \<and> HasPrefix cs ps)"

fun Contains :: "string \<Rightarrow> string \<Rightarrow> bool" where
  "Contains [] substr = HasPrefix [] substr"
| "Contains (c # cs) substr = (HasPrefix (c # cs) substr \<or> Contains cs substr)"

section \<open>Profiles (types.go, profile.go)\<close>

text \<open>
  Of \<open>BrowserProfile\<close> only \<open>UserAgent\<close> and \<open>Language\<close> reach the wire; the other
  fields (viewport, colour depth, canvas noise, ...) are never read by the code below.
  \<open>Ptr\<close> is the identity of the allocation \<open>&BrowserProfile{...}\<close>: two profiles
  built by two calls of \<open>generateBrowserProfile\<close> differ in it.
\<close>

record BrowserProfile =
  Ptr :: nat
  UserAgent :: string
  Language :: string

definition userAgents :: "string list" where
  "userAgents =
    [''Mozilla/5.0 (Windows NT 10.0; Win64; x64) AppleWebKit/537.36 (KHTML, like Gecko) Chrome/125.0.0.0 Safari/537.36'',
     ''Mozilla/5.0 (Windows NT 10.0; Win64; x64) AppleWebKit/537.36 (KHTML, like Gecko) Chrome/124.0.0.0 Safari/537.36'',
     ''Mozilla/5.0 (Windows NT 10.0; Win64; x64) AppleWebKit/537.36 (KHTML, like Gecko) Chrome/123.0.0.0 Safari/537.36'',
     ''Mozilla/5.0 (Macintosh; Intel Mac OS X 10_15_7) AppleWebKit/537.36 (KHTML, like Gecko) Chrome/125.0.0.0 Safari/537.36'',
     ''Mozilla/5.0 (X11; Linux x86_64) AppleWebKit/537.36 (KHTML, like Gecko) Chrome/125.0.0.0 Safari/537.36'',
     ''Mozilla/5.0 (Windows NT 10.0; Win64; x64; rv:126.0) Gecko/20100101 Firefox/126.0'',
     ''Mozilla/5.0 (Macintosh; Intel Mac OS X 14.5; rv:126.0) Gecko/20100101 Firefox/126.0'',
     ''Mozilla/5.0 (Macintosh; Intel Mac OS X 14_5) AppleWebKit/605.1.15 (KHTML, like Gecko) Version/17.4.1 Safari/605.1.15'']"

text \<open>
  \<open>generateBrowserProfile\<close> draws every field from a random source seeded from the
  clock; \<open>r i\<close> is the raw value of its \<open>i\<close>-th draw, counted from 0 in the order the
  source makes them: the language is the fourth draw and the user agent the tenth.
  \<open>ptr\<close> is the address of the new allocation.
\<close>

definition languages :: "string list" where
  "languages =
    [''pt-BR,pt;q=0.9,en;q=0.8'',
     ''pt-BR,pt;q=0.9'',
     ''en-US,en;q=0.9,pt-BR;q=0.8'',
     ''pt-BR,pt;q=0.9,en-US;q=0.8,en;q=0.7'']"

definition generateBrowserProfile :: "nat \<Rightarrow> (nat \<Rightarrow> nat) \<Rightarrow> BrowserProfile" where
  "generateBrowserProfile ptr r =
     \<lparr>Ptr = ptr,
      UserAgent = userAgents ! (r 9 mod length userAgents),
      Language = languages ! (r 3 mod length languages)\<rparr>"

text \<open>
  The process-wide \<open>threadProfiles\<close> map with the allocation counter. \<open>seeds n\<close> is the
  random source of the \<open>n\<close>-th generated profile. \<open>GetThreadProfile\<close> is the function
  run by one caller alone: \<open>Load\<close>, and on a miss generate and \<open>Store\<close>.
\<close>

record ProfileStore =
  threadProfiles :: "int \<rightharpoonup> BrowserProfile"
  allocated :: nat

definition GetThreadProfile ::
  "(nat \<Rightarrow> nat \<Rightarrow> nat) \<Rightarrow> ProfileStore \<Rightarrow> int \<Rightarrow> BrowserProfile \<times> ProfileStore" where
  "GetThreadProfile seeds st threadID =
     (case threadProfiles st threadID of
        Some cached \<Rightarrow> (cached, st)
      | None \<Rightarrow>
          (let newProfile = generateBrowserProfile (allocated st) (seeds (allocated st))
           in (newProfile,
               st\<lparr>threadProfiles := (threadProfiles st)(threadID \<mapsto> newProfile),
                  allocated := allocated st + 1\<rparr>)))"

text \<open>
  The same function run by several goroutines. The operations of \<open>sync.Map\<close> are
  atomic, and between any two of them another goroutine may run; so a goroutine is either
  about to \<open>Load\<close>, about to generate after a miss, about to \<open>Store\<close> the profile it
  generated, or has returned. \<open>runSchedule\<close> runs the goroutines of a list in the order
  a schedule names them, one step at a time.
\<close>

datatype Goroutine =
    AtLoad int
  | AtGenerate int
  | AtStore int BrowserProfile
  | Returned BrowserProfile

fun stepGoroutine :: "(nat \<Rightarrow> nat \<Rightarrow> nat) \<Rightarrow> ProfileStore \<Rightarrow> Goroutine \<Rightarrow> ProfileStore \<times> Goroutine" where
  "stepGoroutine seeds st (AtLoad threadID) =
     (case threadProfiles st threadID of
        Some cached \<Rightarrow> (st, Returned cached)
      | None \<Rightarrow> (st, AtGenerate threadID))"
| "stepGoroutine seeds st (AtGenerate threadID) =
     (st\<lparr>allocated := allocated st + 1\<rparr>,
      AtStore threadID (generateBrowserProfile (allocated st) (seeds (allocated st))))"
| "stepGoroutine seeds st (AtStore threadID newProfile) =
     (st\<lparr>threadProfiles := (threadProfiles st)(threadID \<mapsto> newProfile)\<rparr>, Returned newProfile)"
| "stepGoroutine seeds st (Returned p) = (st, Returned p)"

fun runSchedule ::
  "(nat \<Rightarrow> nat \<Rightarrow> nat) \<Rightarrow> nat list \<Rightarrow> ProfileStore \<times> Goroutine list \<Rightarrow> ProfileStore \<times> Goroutine list" where
  "runSchedule seeds [] cfg = cfg"
| "runSchedule seeds (g # sched) (st, gs) =
     (if g < length gs
      then (let (st', g') = stepGoroutine seeds st (gs ! g)
            in runSchedule seeds sched (st', gs[g := g']))
      else runSchedule seeds sched (st, gs))"

section \<open>Browser family resolution of the Header Engine (detectBrowser)\<close>

definition detectBrowser :: "string \<Rightarrow> string" where
  "detectBrowser userAgent =
    (if Contains userAgent ''Firefox'' then ''Firefox''
     else if Contains userAgent ''Safari'' \<and> \<not> Contains userAgent ''Chrome'' then ''Safari''
     else if Contains userAgent ''Edg/'' then ''Edge''
     else ''Chrome'')"

section \<open>Fingerprint Selector (fingerprint.go)\<close>

text \<open>
  The ClientHello templates of the uTLS library that the table names. The table is the
  only place where the repository relates a template to a family.
\<close>

datatype ClientHelloID =
    HelloChrome_Auto | HelloChrome_120
  | HelloFirefox_Auto | HelloFirefox_120
  | HelloSafari_Auto | HelloSafari_16_0 | HelloIOS_Auto
  | HelloEdge_Auto
  | HelloRandomized

definition browserFingerprints :: "(string \<times> ClientHelloID list) list" where
  "browserFingerprints =
    [(''Chrome'', [HelloChrome_Auto, HelloChrome_120]),
     (''Firefox'', [HelloFirefox_Auto, HelloFirefox_120]),
     (''Safari'', [HelloSafari_Auto, HelloSafari_16_0, HelloIOS_Auto]),
     (''Edge'', [HelloEdge_Auto, HelloChrome_120])]"

text \<open>\<open>browserFingerprints[browser]\<close>: a missing key gives the nil slice.\<close>

definition fingerprintsOf :: "string \<Rightarrow> ClientHelloID list" where
  "fingerprintsOf browser = (case map_of browserFingerprints browser of None \<Rightarrow> [] | Some fs \<Rightarrow> fs)"

text \<open>
  The loop \<open>for b := range browserFingerprints\<close> of \<open>selectFingerprint\<close>. Go leaves the
  iteration order of a map unspecified (the runtime randomises it), so the order in which
  the keys are visited is an input of the model: \<open>order\<close>, an enumeration of the keys.
  The first visited key contained in the user agent wins (\<open>break\<close>); without a match the
  default stays.
\<close>

fun rangeBrowser :: "string \<Rightarrow> string list \<Rightarrow> string \<Rightarrow> string" where
  "rangeBrowser userAgent [] browser = browser"
| "rangeBrowser userAgent (b # bs) browser =
     (if Contains userAgent b then b else rangeBrowser userAgent bs browser)"

definition keyOrder :: "string list \<Rightarrow> bool" where
  "keyOrder order \<longleftrightarrow> distinct order \<and> set order = set (map fst browserFingerprints)"

text \<open>
  \<open>r.Intn(n)\<close> panics for \<open>n \<le> 0\<close> and returns a number below \<open>n\<close> otherwise; the model
  reduces the raw value \<open>r\<close> of the random source modulo \<open>n\<close>. \<open>None\<close> is the panic.
\<close>

definition Intn :: "nat \<Rightarrow> nat \<Rightarrow> nat option" where
  "Intn r n = (if n = 0 then None else Some (r mod n))"

definition selectFingerprint :: "string \<Rightarrow> bool \<Rightarrow> string list \<Rightarrow> nat \<Rightarrow> ClientHelloID option" where
  "selectFingerprint userAgent randomize order r =
    (if randomize then Some HelloRandomized
     else
       let browser = rangeBrowser userAgent order ''Chrome'';
           fingerprints = fingerprintsOf browser
       in (case Intn r (length fingerprints) of
             None \<Rightarrow> None
           | Some i \<Rightarrow> Some (fingerprints ! i)))"

section \<open>Standard-library functions called by the Header Engine\<close>

text \<open>
  \<open>strings.Split s sep\<close> for a non-empty separator: the pieces between the successive
  non-overlapping occurrences of \<open>sep\<close>, found from the left. \<open>skip\<close> counts the
  bytes of a matched separator still to pass over, \<open>cur\<close> is the piece read so far,
  reversed.
\<close>

fun SplitFrom :: "string \<Rightarrow> string \<Rightarrow> nat \<Rightarrow> string \<Rightarrow> string list" where
  "SplitFrom sep [] skip cur = [rev cur]"
| "SplitFrom sep (c # cs) (Suc k) cur = SplitFrom sep cs k cur"
| "SplitFrom sep (c # cs) 0 cur =
     (if HasPrefix (c # cs) sep then rev cur # SplitFrom sep cs (length sep - 1) []
      else SplitFrom sep cs 0 (c # cur))"

definition Split :: "string \<Rightarrow> string \<Rightarrow> string list" where
  "Split s sep = SplitFrom sep s 0 []"

text \<open>
  \<open>path[strings.LastIndex(path, ".")+1:]\<close>: the bytes after the last dot, the whole
  path when there is none (\<open>LastIndex\<close> is then \<open>-1\<close>).
\<close>

definition afterLastDot :: "string \<Rightarrow> string" where
  "afterLastDot path = rev (takeWhile (\<lambda>c. c \<noteq> CHR ''.'') (rev path))"

definition lowerOf :: "char \<Rightarrow> char" where
  "lowerOf c = (case map_of (zip ''ABCDEFGHIJKLMNOPQRSTUVWXYZ'' ''abcdefghijklmnopqrstuvwxyz'') c of
                  None \<Rightarrow> c | Some l \<Rightarrow> l)"

definition upperOf :: "char \<Rightarrow> char" where
  "upperOf c = (case map_of (zip ''abcdefghijklmnopqrstuvwxyz'' ''ABCDEFGHIJKLMNOPQRSTUVWXYZ'') c of
                  None \<Rightarrow> c | Some u \<Rightarrow> u)"

text \<open>\<open>strings.ToLower\<close> on the ASCII letters; other bytes are left as they are.\<close>

definition ToLower :: "string \<Rightarrow> string" where
  "ToLower s = map lowerOf s"

text \<open>
  \<open>textproto.CanonicalMIMEHeaderKey\<close>, which \<open>Header.Get\<close> and \<open>Header.Set\<close> apply to
  their key: a key made of header-token bytes only gets an upper-case letter at the start
  and after each hyphen and lower-case letters elsewhere; any other key is unchanged.
\<close>

definition validHeaderFieldByte :: "char \<Rightarrow> bool" where
  "validHeaderFieldByte c \<longleftrightarrow>
     c \<in> set ''abcdefghijklmnopqrstuvwxyzABCDEFGHIJKLMNOPQRSTUVWXYZ0123456789''
     \<or> c \<in> set [CHR ''!'', CHR ''#'', CHR ''$'', CHR ''%'', CHR ''&'', CHR 0x27, CHR ''*'', CHR ''+'',
                 CHR ''-'', CHR ''.'', CHR ''^'', CHR ''_'', CHR 0x60, CHR ''|'', CHR ''~'']"

fun canonicalBytes :: "bool \<Rightarrow> string \<Rightarrow> string" where
  "canonicalBytes upper [] = []"
| "canonicalBytes upper (c # cs) =
     (let c' = (if upper then upperOf c else lowerOf c)
      in c' # canonicalBytes (c' = CHR ''-'') cs)"

definition CanonicalMIMEHeaderKey :: "string \<Rightarrow> string" where
  "CanonicalMIMEHeaderKey s = (if list_all validHeaderFieldByte s then canonicalBytes True s else s)"

text \<open>
  \<open>fmt.Sscanf(s, "%d", &version)\<close>: leading blanks, an optional sign, then decimal
  digits; \<open>None\<close> when no integer is scanned or it does not fit 64 bits, in which case
  the caller's variable keeps its value.
\<close>

definition digitOf :: "char \<Rightarrow> nat option" where
  "digitOf c = map_of (zip ''0123456789'' [0, 1, 2, 3, 4, 5, 6, 7, 8, 9]) c"

fun scanDigits :: "string \<Rightarrow> nat \<Rightarrow> nat" where
  "scanDigits [] acc = acc"
| "scanDigits (c # cs) acc = (case digitOf c of None \<Rightarrow> acc | Some d \<Rightarrow> scanDigits cs (10 * acc + d))"

definition scanUnsigned :: "string \<Rightarrow> nat option" where
  "scanUnsigned s = (case s of [] \<Rightarrow> None
                     | c # cs \<Rightarrow> (case digitOf c of None \<Rightarrow> None | Some d \<Rightarrow> Some (scanDigits s 0)))"

definition Sscanf_d :: "string \<Rightarrow> int option" where
  "Sscanf_d s =
     (let t = dropWhile (\<lambda>c. c \<in> set [CHR '' '', CHR 0x09, CHR 0x0D]) s;
          v = (case t of
                 [] \<Rightarrow> None
               | c # cs \<Rightarrow>
                   if c = CHR ''-'' then map_option (\<lambda>n. - int n) (scanUnsigned cs)
                   else if c = CHR ''+'' then map_option int (scanUnsigned cs)
                   else map_option int (scanUnsigned t))
      in (case v of
            None \<Rightarrow> None
          | Some i \<Rightarrow> if - (2 ^ 63) \<le> i \<and> i < 2 ^ 63 then Some i else None))"

text \<open>
  The random source \<open>*rand.Rand\<close> as the stream of the numbers its successive
  \<open>Float32\<close> calls return, each in \<open>[0, 1)\<close>. A call returns the head and leaves the
  tail. The stream is taken over the rationals: the rounding of the constants \<open>0.3\<close>,
  \<open>0.2\<close>, \<open>0.4\<close>, \<open>0.7\<close> to 32-bit floats is not modelled.
\<close>

type_synonym Rand = "nat \<Rightarrow> rat"

definition Float32 :: "Rand \<Rightarrow> rat \<times> Rand" where
  "Float32 r = (r 0, \<lambda>n. r (Suc n))"

section \<open>HTTP headers and requests\<close>

text \<open>
  \<open>http.Header\<close> is \<open>map[string][]string\<close>; it is kept as an association list with
  one entry per key, written with \<open>AList.update\<close> (\<open>h[key] = value\<close>). \<open>HeaderGet\<close>
  and \<open>HeaderSet\<close> are the methods \<open>Get\<close> and \<open>Set\<close>, which canonicalise the key;
  indexing does not.
\<close>

type_synonym Header = "(string \<times> string list) list"

definition HeaderGet :: "Header \<Rightarrow> string \<Rightarrow> string" where
  "HeaderGet h key =
     (case map_of h (CanonicalMIMEHeaderKey key) of
        None \<Rightarrow> []
      | Some [] \<Rightarrow> []
      | Some (v # vs) \<Rightarrow> v)"

definition HeaderSet :: "Header \<Rightarrow> string \<Rightarrow> string \<Rightarrow> Header" where
  "HeaderSet h key value = AList.update (CanonicalMIMEHeaderKey key) [value] h"

text \<open>
  Of \<open>*http.Request\<close> the code reads \<open>URL.String()\<close>, \<open>URL.Path\<close> and the header;
  the method and body pass through untouched.
\<close>

record Request =
  Method :: string
  URL :: string
  Path :: string
  Header :: Header

section \<open>Header Engine (HeaderBuilder)\<close>

definition headerOrder :: "(string \<times> string list) list" where
  "headerOrder =
    [(''Chrome'',
        [''Host'', ''Connection'', ''Cache-Control'', ''Sec-Ch-Ua'', ''Sec-Ch-Ua-Mobile'',
         ''Sec-Ch-Ua-Platform'', ''Upgrade-Insecure-Requests'', ''User-Agent'', ''Accept'',
         ''Sec-Fetch-Site'', ''Sec-Fetch-Mode'', ''Sec-Fetch-User'', ''Sec-Fetch-Dest'',
         ''Accept-Encoding'', ''Accept-Language'', ''Cookie'']),
     (''Firefox'',
        [''Host'', ''User-Agent'', ''Accept'', ''Accept-Language'', ''Accept-Encoding'',
         ''Connection'', ''Upgrade-Insecure-Requests'', ''Sec-Fetch-Dest'', ''Sec-Fetch-Mode'',
         ''Sec-Fetch-Site'', ''Sec-Fetch-User'', ''Cache-Control'', ''Cookie'']),
     (''Safari'',
        [''Host'', ''Accept-Encoding'', ''Accept'', ''User-Agent'', ''Accept-Language'',
         ''Connection'', ''Cookie''])]"

record HeaderBuilder =
  profile :: BrowserProfile
  isNavigate :: bool
  referrer :: string
  origin :: string

definition NewHeaderBuilder :: "BrowserProfile \<Rightarrow> HeaderBuilder" where
  "NewHeaderBuilder p = \<lparr>profile = p, isNavigate = True, referrer = [], origin = []\<rparr>"

definition SetContext :: "HeaderBuilder \<Rightarrow> bool \<Rightarrow> string \<Rightarrow> string \<Rightarrow> HeaderBuilder" where
  "SetContext hb nav ref orig = hb\<lparr>isNavigate := nav, referrer := ref, origin := orig\<rparr>"

definition getSecFetchSite :: "HeaderBuilder \<Rightarrow> string" where
  "getSecFetchSite hb =
     (if referrer hb = [] then ''none''
      else if origin hb \<noteq> [] \<and> HasPrefix (referrer hb) (origin hb) then ''same-origin''
      else ''cross-site'')"

definition getSecFetchMode :: "HeaderBuilder \<Rightarrow> string" where
  "getSecFetchMode hb = (if isNavigate hb then ''navigate'' else ''no-cors'')"

definition getSecFetchDest :: "HeaderBuilder \<Rightarrow> string" where
  "getSecFetchDest hb = (if isNavigate hb then ''document'' else ''empty'')"

definition getNavigationAccept :: "string \<Rightarrow> string" where
  "getNavigationAccept browser =
     (if browser = ''Firefox'' then
        ''text/html,application/xhtml+xml,application/xml;q=0.9,image/avif,image/webp,*/*;q=0.8''
      else if browser = ''Safari'' then
        ''text/html,application/xhtml+xml,application/xml;q=0.9,*/*;q=0.8''
      else
        ''text/html,application/xhtml+xml,application/xml;q=0.9,image/avif,image/webp,image/apng,*/*;q=0.8,application/signed-exchange;v=b3;q=0.7'')"

definition getResourceAccept :: "string \<Rightarrow> string" where
  "getResourceAccept path =
     (let ext = ToLower (afterLastDot path)
      in if ext = ''js'' then ''*/*''
         else if ext = ''css'' then ''text/css,*/*;q=0.1''
         else if ext \<in> set [''jpg'', ''jpeg'', ''png'', ''gif'', ''webp''] then
           ''image/avif,image/webp,image/apng,image/svg+xml,image/*,*/*;q=0.8''
         else ''*/*'')"

definition getAcceptEncoding :: "string \<Rightarrow> string" where
  "getAcceptEncoding browser =
     (if browser = ''Safari'' then ''gzip, deflate, br'' else ''gzip, deflate, br, zstd'')"

text \<open>The double quote, for the quoted values of the client-hint headers.\<close>

definition dq :: string where
  "dq = [CHR 0x22]"

definition addChromeHeaders :: "HeaderBuilder \<Rightarrow> Header \<Rightarrow> Rand \<Rightarrow> Header \<times> Rand" where
  "addChromeHeaders hb headers r =
     (let ua = UserAgent (profile hb);
          matches = Split ua ''Chrome/'';
          version = (if length matches > 1
                     then (let parts = Split (matches ! 1) ''.''
                           in if length parts > 0 then parts ! 0 else ''126'')
                     else ''126'');
          h1 = AList.update ''Sec-Ch-Ua''
                 [dq @ ''Not)A;Brand'' @ dq @ '';v='' @ dq @ ''99'' @ dq @ '', ''
                  @ dq @ ''Google Chrome'' @ dq @ '';v='' @ dq @ version @ dq @ '', ''
                  @ dq @ ''Chromium'' @ dq @ '';v='' @ dq @ version @ dq] headers;
          h2 = AList.update ''Sec-Ch-Ua-Mobile'' [''?0''] h1;
          platform = (if Contains ua ''Macintosh'' then ''macOS''
                      else if Contains ua ''X11'' then ''Linux''
                      else ''Windows'');
          h3 = AList.update ''Sec-Ch-Ua-Platform'' [dq @ platform @ dq] h2;
          h4 = AList.update ''Sec-Fetch-Site'' [getSecFetchSite hb] h3;
          h5 = AList.update ''Sec-Fetch-Mode'' [getSecFetchMode hb] h4;
          h6 = AList.update ''Sec-Fetch-Dest'' [getSecFetchDest hb] h5;
          h7 = (if isNavigate hb
                then AList.update ''Upgrade-Insecure-Requests'' [''1'']
                       (AList.update ''Sec-Fetch-User'' [''?1''] h6)
                else h6);
          (f, r') = Float32 r;
          h8 = (if f < 3 / 10
                then AList.update ''Sec-Ch-Ua-Platform-Version'' [dq @ ''10.0.0'' @ dq] h7
                else h7)
      in (h8, r'))"

definition addFirefoxHeaders :: "HeaderBuilder \<Rightarrow> Header \<Rightarrow> Rand \<Rightarrow> Header \<times> Rand" where
  "addFirefoxHeaders hb headers r =
     (let h1 = AList.update ''Upgrade-Insecure-Requests'' [''1''] headers;
          matches = Split (UserAgent (profile hb)) ''Firefox/'';
          version = (if length matches > 1
                     then (let parts = Split (matches ! 1) ''.''
                           in if length parts > 0
                              then (case Sscanf_d (parts ! 0) of None \<Rightarrow> 126 | Some v \<Rightarrow> v)
                              else 126)
                     else (126 :: int));
          h2 = (if version \<ge> 90
                then (let g1 = AList.update ''Sec-Fetch-Dest'' [getSecFetchDest hb] h1;
                          g2 = AList.update ''Sec-Fetch-Mode'' [getSecFetchMode hb] g1;
                          g3 = AList.update ''Sec-Fetch-Site'' [getSecFetchSite hb] g2
                      in if isNavigate hb then AList.update ''Sec-Fetch-User'' [''?1''] g3 else g3)
                else h1);
          (f, r') = Float32 r;
          h3 = (if f < 7 / 10 then AList.update ''TE'' [''trailers''] h2 else h2)
      in (h3, r'))"

definition addSafariHeaders :: "HeaderBuilder \<Rightarrow> Header \<Rightarrow> Rand \<Rightarrow> Header \<times> Rand" where
  "addSafariHeaders hb headers r =
     (let h1 = (if isNavigate hb then AList.update ''Upgrade-Insecure-Requests'' [''1''] headers
                else headers);
          h2 = AList.update ''Accept-Encoding'' [''gzip, deflate, br''] h1
      in (h2, r))"

text \<open>
  \<open>generateHeaders\<close>, block by block as the source marks them: the common headers
  with Accept and Accept-Encoding, the switch over the browser (no case for Edge), the
  conditional headers, and the random headers. The function makes its own random source
  on every call; \<open>r\<close> is that source. The third \<open>Float32\<close> call of the Cache-Control
  choice is made only when the second draw is not below \<open>0.2\<close>.
\<close>

definition commonHeaders :: "HeaderBuilder \<Rightarrow> Request \<Rightarrow> string \<Rightarrow> Header" where
  "commonHeaders hb req browser =
     (let h1 = AList.update ''User-Agent'' [UserAgent (profile hb)] [];
          h2 = AList.update ''Accept-Language'' [Language (profile hb)] h1;
          h3 = AList.update ''Connection'' [''keep-alive''] h2;
          h4 = AList.update ''Accept''
                 [if isNavigate hb then getNavigationAccept browser else getResourceAccept (Path req)] h3
      in AList.update ''Accept-Encoding'' [getAcceptEncoding browser] h4)"

definition browserHeaders :: "HeaderBuilder \<Rightarrow> string \<Rightarrow> Header \<Rightarrow> Rand \<Rightarrow> Header \<times> Rand" where
  "browserHeaders hb browser headers r =
     (if browser = ''Chrome'' then addChromeHeaders hb headers r
      else if browser = ''Firefox'' then addFirefoxHeaders hb headers r
      else if browser = ''Safari'' then addSafariHeaders hb headers r
      else (headers, r))"

definition conditionalHeaders :: "HeaderBuilder \<Rightarrow> Header \<Rightarrow> Header" where
  "conditionalHeaders hb headers =
     (let h1 = (if referrer hb \<noteq> [] then AList.update ''Referer'' [referrer hb] headers else headers)
      in if origin hb \<noteq> [] \<and> \<not> isNavigate hb then AList.update ''Origin'' [origin hb] h1 else h1)"

definition randomHeaders :: "Header \<Rightarrow> Rand \<Rightarrow> Header" where
  "randomHeaders headers r =
     (let (f1, r1) = Float32 r;
          h1 = (if f1 < 3 / 10 then AList.update ''DNT'' [''1''] headers else headers);
          (f2, r2) = Float32 r1
      in if f2 < 2 / 10 then AList.update ''Cache-Control'' [''no-cache''] h1
         else (let (f3, r3) = Float32 r2
               in if f3 < 4 / 10 then AList.update ''Cache-Control'' [''max-age=0''] h1 else h1))"

definition generateHeaders :: "HeaderBuilder \<Rightarrow> Request \<Rightarrow> string \<Rightarrow> Rand \<Rightarrow> Header" where
  "generateHeaders hb req browser r =
     (let (headers, r') = browserHeaders hb browser (commonHeaders hb req browser) r
      in randomHeaders (conditionalHeaders hb headers) r')"

text \<open>
  \<open>BuildHeaders\<close> replaces the request's header by the generated set: first the keys of
  the family's order table that were generated, then every generated key for which
  \<open>req.Header.Get\<close> is still empty. The second loop ranges over the Go map
  \<open>headers\<close>; \<open>rangeRest\<close> takes the entries in the order visited.
\<close>

definition rangeOrdered :: "Header \<Rightarrow> string list \<Rightarrow> Header \<Rightarrow> Header" where
  "rangeOrdered headers order h =
     fold (\<lambda>key h. case map_of headers key of None \<Rightarrow> h | Some value \<Rightarrow> AList.update key value h) order h"

definition rangeRest :: "Header \<Rightarrow> Header \<Rightarrow> Header" where
  "rangeRest visited h =
     fold (\<lambda>(key, value) h. if HeaderGet h key = [] then AList.update key value h else h) visited h"

definition BuildHeaders :: "HeaderBuilder \<Rightarrow> Request \<Rightarrow> Rand \<Rightarrow> Request" where
  "BuildHeaders hb req r =
     (let browser = detectBrowser (UserAgent (profile hb));
          headers = generateHeaders hb req browser r;
          order = (case map_of headerOrder browser of
                     None \<Rightarrow> (case map_of headerOrder ''Chrome'' of None \<Rightarrow> [] | Some order \<Rightarrow> order)
                   | Some order \<Rightarrow> order)
      in req\<lparr>Header := rangeRest headers (rangeOrdered headers order [])\<rparr>)"

section \<open>Request Orchestrator (BrowserClient)\<close>

datatype error =
    BadURL string
  | SendFailed string
  | StoppedAfter10Redirects
  | UrlError error
  | FailedAfterRetries int "error option"
  | BadEncoding string
  | ReadFailed string

text \<open>
  \<open>BadURL\<close>: \<open>http.NewRequest\<close> rejected the URL. \<open>SendFailed\<close>: the transport failed
  (dial, handshake, timeout). \<open>StoppedAfter10Redirects\<close>: the error
  "stopped after 10 redirects" of \<open>checkRedirect\<close>. \<open>UrlError\<close>: the \<open>*url.Error\<close> in
  which \<open>http.Client.Do\<close> wraps what it returns. \<open>FailedAfterRetries n e\<close>:
  \<open>fmt.Errorf("failed after %d retries: %w", n, e)\<close>, where \<open>e\<close> may be nil.
  \<open>BadEncoding\<close>: \<open>gzip.NewReader\<close> or \<open>zlib.NewReader\<close> rejected the body.
  \<open>ReadFailed\<close>: a read error other than \<open>io.EOF\<close>.
\<close>

record Response =
  StatusCode :: int
  Payload :: string

text \<open>
  What the transport and the redirect logic of \<open>net/http\<close> make of one request: a
  failure, a response that ends the exchange, or a response that redirects, with the
  follow-up request the library has prepared from it (method, target from the Location
  header, headers copied over).
\<close>

datatype RoundTrip = Failed string | Final Response | Redirect Response Request

text \<open>
  The surroundings of a client. \<open>parseURL\<close> is the URL parsing of \<open>http.NewRequest\<close>,
  giving \<open>URL.String()\<close> and \<open>URL.Path\<close>; \<open>roundTrip n\<close> is the outcome of the
  \<open>n\<close>-th request put on the wire (a server may answer the same request differently
  over time); \<open>randOf n\<close> is the random source that the \<open>n\<close>-th call of
  \<open>generateHeaders\<close> seeds from the clock.
\<close>

record Env =
  parseURL :: "string \<Rightarrow> (string \<times> string) option"
  roundTrip :: "nat \<Rightarrow> Request \<Rightarrow> RoundTrip"
  randOf :: "nat \<Rightarrow> Rand"

text \<open>
  Counters into the surroundings, and the log of the \<open>time.Sleep\<close> calls in seconds.
\<close>

record World =
  sent :: nat
  built :: nat
  slept :: "int list"

record RequestOptions =
  Headers :: "(string \<times> string) list option"
  IsNavigate :: bool
  Referrer :: string
  Origin :: string
  FollowRedirects :: bool
  MaxRedirects :: int

text \<open>
  \<open>Headers\<close> is a Go map, \<open>None\<close> when nil; its list order stands for the order in which
  \<open>range\<close> visits it.
\<close>

record BrowserClient =
  clientProfile :: BrowserProfile
  headerBuilder :: HeaderBuilder
  history :: "string list"

text \<open>
  The client \<open>NewBrowserClient\<close> returns for a profile; the cookie jar and the transport
  it also builds are on the far side of \<open>roundTrip\<close>.
\<close>

definition NewBrowserClient :: "BrowserProfile \<Rightarrow> BrowserClient" where
  "NewBrowserClient p = \<lparr>clientProfile = p, headerBuilder = NewHeaderBuilder p, history = []\<rparr>"

definition updateHistory :: "BrowserClient \<Rightarrow> string \<Rightarrow> BrowserClient" where
  "updateHistory bc url =
     (let h = history bc @ [url]
      in bc\<lparr>history := (if length h > 10 then drop 1 h else h)\<rparr>)"

definition mergeOptions :: "BrowserClient \<Rightarrow> RequestOptions list \<Rightarrow> RequestOptions" where
  "mergeOptions bc options =
     (let opts = \<lparr>Headers = Some [], IsNavigate = True, Referrer = [], Origin = [],
                  FollowRedirects = True, MaxRedirects = 10\<rparr>;
          opts1 = (case options of
                     [] \<Rightarrow> opts
                   | opt # rest \<Rightarrow>
                       opts\<lparr>Headers := (case Headers opt of None \<Rightarrow> Headers opts | Some h \<Rightarrow> Some h),
                            IsNavigate := IsNavigate opt,
                            Referrer := (if Referrer opt \<noteq> [] then Referrer opt else Referrer opts),
                            Origin := (if Origin opt \<noteq> [] then Origin opt else Origin opts),
                            FollowRedirects := FollowRedirects opt,
                            MaxRedirects := (if MaxRedirects opt > 0 then MaxRedirects opt
                                             else MaxRedirects opts)\<rparr>)
      in if Referrer opts1 = [] \<and> length (history bc) > 0
         then opts1\<lparr>Referrer := last (history bc)\<rparr>
         else opts1)"

definition checkRedirect ::
  "Env \<Rightarrow> BrowserClient \<Rightarrow> World \<Rightarrow> Request \<Rightarrow> Request list
    \<Rightarrow> error option \<times> Request \<times> BrowserClient \<times> World" where
  "checkRedirect env bc w req via =
     (if length via \<ge> 10 then (Some StoppedAfter10Redirects, req, bc, w)
      else if length via > 0 then
        (let prevReq = last via;
             hb = SetContext (headerBuilder bc) True (URL prevReq) [];
             req1 = BuildHeaders hb req (randOf env (built w));
             req2 = fold (\<lambda>header rq.
                            let val = HeaderGet (Header prevReq) header
                            in if val \<noteq> [] then rq\<lparr>Header := HeaderSet (Header rq) header val\<rparr> else rq)
                      [''Authorization'', ''X-Requested-With''] req1
         in (None, req2, bc\<lparr>headerBuilder := hb\<rparr>, w\<lparr>built := built w + 1\<rparr>))
      else (None, req, bc, w))"

lemma checkRedirect_allows:
  "checkRedirect env bc w req via = (None, req', bc', w') \<Longrightarrow> length via < 10"
  by (auto simp add: checkRedirect_def Let_def split: if_splits)

text \<open>
  \<open>http.Client.Do\<close> with \<open>CheckRedirect = bc.checkRedirect\<close>, as \<open>net/http\<close> runs it:
  the request is sent; a redirecting response makes the library prepare the follow-up
  request and call the check with it and the list of all requests made so far, oldest
  first; an error from the check ends the exchange, wrapped in a \<open>*url.Error\<close>, and so
  does a transport failure.
\<close>

function clientDo ::
  "Env \<Rightarrow> BrowserClient \<Rightarrow> World \<Rightarrow> Request list \<Rightarrow> Request
    \<Rightarrow> (error + Response) \<times> BrowserClient \<times> World" where
  "clientDo env bc w via req =
     (case roundTrip env (sent w) req of
        Failed e \<Rightarrow> (Inl (UrlError (SendFailed e)), bc, w\<lparr>sent := sent w + 1\<rparr>)
      | Final resp \<Rightarrow> (Inr resp, bc, w\<lparr>sent := sent w + 1\<rparr>)
      | Redirect resp nxt \<Rightarrow>
          (case checkRedirect env bc (w\<lparr>sent := sent w + 1\<rparr>) nxt (via @ [req]) of
             (Some err, nxt', bc', w') \<Rightarrow> (Inl (UrlError err), bc', w')
           | (None, nxt', bc', w') \<Rightarrow> clientDo env bc' w' (via @ [req]) nxt'))"
  by pat_completeness auto
termination
proof (relation "measure (\<lambda>(env, bc, w, via, req). 10 - length via)", goal_cases)
  case 1
  show ?case by simp
next
  case (2 env bc w via req resp nxt x y nxt' r bc' w')
  then have "checkRedirect env bc (w\<lparr>sent := sent w + 1\<rparr>) nxt (via @ [req]) = (None, nxt', bc', w')"
    by simp
  then have "length (via @ [req]) < 10" by (rule checkRedirect_allows)
  then show ?case by simp
qed

declare clientDo.simps [simp del]

definition Do ::
  "Env \<Rightarrow> BrowserClient \<Rightarrow> World \<Rightarrow> Request \<Rightarrow> RequestOptions list
    \<Rightarrow> (error + Response) \<times> BrowserClient \<times> World" where
  "Do env bc w req options =
     (let opts = mergeOptions bc options;
          hb = SetContext (headerBuilder bc) (IsNavigate opts) (Referrer opts) (Origin opts);
          req1 = BuildHeaders hb req (randOf env (built w));
          req2 = fold (\<lambda>(k, v) rq. rq\<lparr>Header := HeaderSet (Header rq) k v\<rparr>)
                   (case Headers opts of None \<Rightarrow> [] | Some hs \<Rightarrow> hs) req1
      in (case clientDo env (bc\<lparr>headerBuilder := hb\<rparr>) (w\<lparr>built := built w + 1\<rparr>) [] req2 of
            (Inl err, bc', w') \<Rightarrow> (Inl err, bc', w')
          | (Inr resp, bc', w') \<Rightarrow> (Inr resp, updateHistory bc' (URL req), w')))"

definition Get ::
  "Env \<Rightarrow> BrowserClient \<Rightarrow> World \<Rightarrow> string \<Rightarrow> RequestOptions list
    \<Rightarrow> (error + Response) \<times> BrowserClient \<times> World" where
  "Get env bc w url options =
     (case parseURL env url of
        None \<Rightarrow> (Inl (BadURL url), bc, w)
      | Some (u, p) \<Rightarrow> Do env bc w \<lparr>Method = ''GET'', URL = u, Path = p, Header = []\<rparr> options)"

text \<open>
  \<open>Post\<close> builds the request, sets the two content headers and hands over to \<open>Do\<close>.
  \<open>showNat\<close> is \<open>fmt.Sprintf("%d", n)\<close> for the length of the body; the body itself
  is on the far side of \<open>roundTrip\<close>.
\<close>

function showNat :: "nat \<Rightarrow> string" where
  "showNat n =
     (if n < 10 then [''0123456789'' ! n]
      else showNat (n div 10) @ [''0123456789'' ! (n mod 10)])"
  by pat_completeness auto
termination
  by (relation "measure id") auto

declare showNat.simps [simp del]

definition Post ::
  "Env \<Rightarrow> BrowserClient \<Rightarrow> World \<Rightarrow> string \<Rightarrow> string \<Rightarrow> string \<Rightarrow> RequestOptions list
    \<Rightarrow> (error + Response) \<times> BrowserClient \<times> World" where
  "Post env bc w url contentType body options =
     (case parseURL env url of
        None \<Rightarrow> (Inl (BadURL url), bc, w)
      | Some (u, p) \<Rightarrow>
          Do env bc w
            \<lparr>Method = ''POST'', URL = u, Path = p,
             Header = HeaderSet (HeaderSet [] ''Content-Type'' contentType)
                        ''Content-Length'' (showNat (length body))\<rparr>
            options)"

text \<open>
  \<open>GetWithRetry\<close>. \<open>retryLoop\<close> is the \<open>for i := 0; i <= maxRetries; i++\<close> loop with
  its variables \<open>i\<close>, \<open>lastErr\<close> and \<open>backoff\<close> (in seconds). An attempt ends the loop
  when it returned no error and a status below 500. Otherwise \<open>lastErr\<close> takes the
  error of this attempt, which is nil when the attempt returned a response, and the loop
  sleeps unless this was the last round.
\<close>

definition attemptDone :: "error + Response \<Rightarrow> bool" where
  "attemptDone res = (case res of Inl err \<Rightarrow> False | Inr resp \<Rightarrow> StatusCode resp < 500)"

definition attemptErr :: "error + Response \<Rightarrow> error option" where
  "attemptErr res = (case res of Inl err \<Rightarrow> Some err | Inr resp \<Rightarrow> None)"

function retryLoop ::
  "Env \<Rightarrow> string \<Rightarrow> int \<Rightarrow> RequestOptions list \<Rightarrow> int \<Rightarrow> error option \<Rightarrow> int
    \<Rightarrow> BrowserClient \<Rightarrow> World \<Rightarrow> (error + Response) \<times> BrowserClient \<times> World" where
  "retryLoop env url maxRetries options i lastErr backoff bc w =
     (if i \<le> maxRetries then
        (let out = Get env bc w url options;
             bc' = fst (snd out);
             w' = snd (snd out)
         in if attemptDone (fst out) then out
            else if i < maxRetries then
              retryLoop env url maxRetries options (i + 1) (attemptErr (fst out))
                (if backoff * 2 > 30 then 30 else backoff * 2) bc' (w'\<lparr>slept := slept w' @ [backoff]\<rparr>)
            else
              retryLoop env url maxRetries options (i + 1) (attemptErr (fst out)) backoff bc' w')
      else (Inl (FailedAfterRetries maxRetries lastErr), bc, w))"
  by pat_completeness auto
termination
  by (relation "measure (\<lambda>(env, url, maxRetries, options, i, lastErr, backoff, bc, w).
         nat (maxRetries + 1 - i))") auto

declare retryLoop.simps [simp del]

definition GetWithRetry ::
  "Env \<Rightarrow> BrowserClient \<Rightarrow> World \<Rightarrow> string \<Rightarrow> int \<Rightarrow> RequestOptions list
    \<Rightarrow> (error + Response) \<times> BrowserClient \<times> World" where
  "GetWithRetry env bc w url maxRetries options = retryLoop env url maxRetries options 0 None 1 bc w"

section \<open>Stream Reader (stream.go)\<close>

text \<open>
  A byte stream as a reader delivers it: the data of its successive \<open>Read\<close> calls and
  the error that ends it, \<open>io.EOF\<close> or another one. The decompressors are external
  codecs: \<open>gzipNewReader\<close> and \<open>zlibNewReader\<close> stand for \<open>gzip.NewReader\<close> and
  \<open>zlib.NewReader\<close>, which reject a body or give the stream of the decompressed data.
\<close>

datatype ReadError = EOF | Broken string

record ByteStream =
  chunks :: "string list"
  ending :: ReadError

record Codecs =
  gzipNewReader :: "ByteStream \<Rightarrow> error + ByteStream"
  zlibNewReader :: "ByteStream \<Rightarrow> error + ByteStream"

text \<open>What \<open>StreamResponse\<close> reads of the \<open>*http.Response\<close>.\<close>

record StreamSource =
  ContentEncoding :: string
  RespBody :: ByteStream

record StreamConfig =
  StopOnContent :: string
  BufferSize :: int
  MaxBytes :: int

record StreamResult =
  BytesRead :: int
  Content :: string
  FoundContent :: bool

definition getResponseReader :: "Codecs \<Rightarrow> StreamSource \<Rightarrow> error + ByteStream" where
  "getResponseReader codecs resp =
     (if Contains (ContentEncoding resp) ''gzip'' then gzipNewReader codecs (RespBody resp)
      else if Contains (ContentEncoding resp) ''deflate'' then zlibNewReader codecs (RespBody resp)
      else Inr (RespBody resp))"

text \<open>
  The \<open>bufio.Reader\<close> over the \<open>byteCountingReader\<close>: the bytes fetched but not yet
  handed out, what the reader below still has to deliver, and \<open>counted\<close>, the field
  \<open>BytesRead\<close> of the counting reader, which grows with every fetch. \<open>ReadString\<close> is
  \<open>bufReader.ReadString('\n')\<close>: it hands out the buffered bytes through the first
  newline; without a newline in the buffer it fetches the next piece and looks again;
  when the reader below is exhausted it hands out what is left together with the ending
  error. A buffer that fills up without a newline only makes the library collect the
  line in pieces, so the buffer size does not show in what is returned.
\<close>

record Reader =
  buffered :: string
  upstream :: "string list"
  terminal :: ReadError
  counted :: int

definition splitLine :: "string \<Rightarrow> (string \<times> string) option" where
  "splitLine buf =
     (if CHR 0x0A \<in> set buf
      then Some (takeWhile (\<lambda>c. c \<noteq> CHR 0x0A) buf @ [CHR 0x0A], tl (dropWhile (\<lambda>c. c \<noteq> CHR 0x0A) buf))
      else None)"

fun fillAndRead :: "string \<Rightarrow> string list \<Rightarrow> ReadError \<Rightarrow> int \<Rightarrow> (string \<times> ReadError option) \<times> Reader" where
  "fillAndRead buf [] term n =
     (case splitLine buf of
        Some (line, rest) \<Rightarrow> ((line, None), \<lparr>buffered = rest, upstream = [], terminal = term, counted = n\<rparr>)
      | None \<Rightarrow> ((buf, Some term), \<lparr>buffered = [], upstream = [], terminal = term, counted = n\<rparr>))"
| "fillAndRead buf (ch # chs) term n =
     (case splitLine buf of
        Some (line, rest) \<Rightarrow> ((line, None), \<lparr>buffered = rest, upstream = ch # chs, terminal = term, counted = n\<rparr>)
      | None \<Rightarrow> fillAndRead (buf @ ch) chs term (n + int (length ch)))"

definition ReadString :: "Reader \<Rightarrow> (string \<times> ReadError option) \<times> Reader" where
  "ReadString rd = fillAndRead (buffered rd) (upstream rd) (terminal rd) (counted rd)"

definition newReader :: "ByteStream \<Rightarrow> Reader" where
  "newReader body = \<lparr>buffered = [], upstream = chunks body, terminal = ending body, counted = 0\<rparr>"

text \<open>The data a reader has yet to hand out.\<close>

definition pendingText :: "Reader \<Rightarrow> string" where
  "pendingText rd = buffered rd @ concat (upstream rd)"

lemma splitLine_Some:
  assumes "splitLine buf = Some (line, rest)"
  shows "buf = line @ rest" and "line \<noteq> []"
proof -
  let ?P = "\<lambda>c. c \<noteq> CHR 0x0A"
  from assms have nl: "CHR 0x0A \<in> set buf"
    and l: "line = takeWhile ?P buf @ [CHR 0x0A]"
    and r: "rest = tl (dropWhile ?P buf)"
    by (simp_all add: splitLine_def split: if_splits)
  have ne: "dropWhile ?P buf \<noteq> []" using nl by (simp add: dropWhile_eq_Nil_conv)
  then have "\<not> ?P (hd (dropWhile ?P buf))" by (rule hd_dropWhile)
  then have "hd (dropWhile ?P buf) = CHR 0x0A" by simp
  then have "dropWhile ?P buf = CHR 0x0A # rest" using ne r by (cases "dropWhile ?P buf") simp_all
  then have "takeWhile ?P buf @ CHR 0x0A # rest = buf"
    using takeWhile_dropWhile_id [of ?P buf] by simp
  then show "buf = line @ rest" using l by simp
  show "line \<noteq> []" using l by simp
qed

lemma fillAndRead_text:
  "fillAndRead buf chs term n = ((line, err), rd') \<Longrightarrow>
     buf @ concat chs = line @ pendingText rd' \<and> terminal rd' = term
     \<and> (err = None \<longrightarrow> line \<noteq> [])"
proof (induction chs arbitrary: buf n)
  case Nil
  then show ?case
  proof (cases "splitLine buf")
    case None
    then show ?thesis using Nil by (auto simp add: pendingText_def)
  next
    case (Some p)
    obtain l r where p: "p = (l, r)" by (cases p)
    then show ?thesis using Nil Some splitLine_Some [of buf l r] by (auto simp add: pendingText_def)
  qed
next
  case (Cons ch chs)
  show ?case
  proof (cases "splitLine buf")
    case None
    then have "fillAndRead (buf @ ch) chs term (n + int (length ch)) = ((line, err), rd')"
      using Cons.prems by simp
    from Cons.IH [OF this] show ?thesis by simp
  next
    case (Some p)
    obtain l r where p: "p = (l, r)" by (cases p)
    then show ?thesis using Cons.prems Some splitLine_Some [of buf l r] by (auto simp add: pendingText_def)
  qed
qed

lemma ReadString_shrinks:
  assumes "ReadString rd = ((line, None), rd')"
  shows "length (pendingText rd') < length (pendingText rd)"
proof -
  have "buffered rd @ concat (upstream rd) = line @ pendingText rd' \<and> line \<noteq> []"
    using fillAndRead_text [of "buffered rd" "upstream rd" "terminal rd" "counted rd" line None rd'] assms
    by (simp add: ReadString_def)
  then have "pendingText rd = line @ pendingText rd'" and "line \<noteq> []"
    by (simp_all add: pendingText_def)
  then show ?thesis by simp
qed

text \<open>
  The \<open>for\<close> loop of \<open>StreamResponse\<close>, with the reader and the content builder as
  its state.
\<close>

function StreamLoop :: "StreamConfig \<Rightarrow> Reader \<Rightarrow> string \<Rightarrow> error + StreamResult" where
  "StreamLoop config rd content =
     (if MaxBytes config > 0 \<and> counted rd \<ge> MaxBytes config
      then Inr \<lparr>BytesRead = counted rd, Content = content, FoundContent = False\<rparr>
      else
        (case ReadString rd of
           ((line, err), rd') \<Rightarrow>
             if line \<noteq> [] \<and> StopOnContent config \<noteq> [] \<and> Contains line (StopOnContent config)
             then Inr \<lparr>BytesRead = counted rd', Content = content @ line, FoundContent = True\<rparr>
             else
               (case err of
                  Some EOF \<Rightarrow> Inr \<lparr>BytesRead = counted rd', Content = content @ line, FoundContent = False\<rparr>
                | Some (Broken e) \<Rightarrow> Inl (ReadFailed e)
                | None \<Rightarrow> StreamLoop config rd' (content @ line))))"
  by pat_completeness auto
termination
proof (relation "measure (\<lambda>(config, rd, content). length (pendingText rd))", goal_cases)
  case 1
  show ?case by simp
next
  case (2 config rd content x rd' line err)
  then have "ReadString rd = ((line, None), rd')" by simp
  then show ?case using ReadString_shrinks by simp
qed

declare StreamLoop.simps [simp del]

definition StreamResponse :: "Codecs \<Rightarrow> StreamSource \<Rightarrow> StreamConfig \<Rightarrow> error + StreamResult" where
  "StreamResponse codecs resp config =
     (let config' = (if BufferSize config \<le> 0 then config\<lparr>BufferSize := 8192\<rparr> else config)
      in (case getResponseReader codecs resp of
            Inl err \<Rightarrow> Inl err
          | Inr reader \<Rightarrow> StreamLoop config' (newReader reader) []))"

section \<open>Streaming variant of the Request Orchestrator (StreamGet)\<close>

text \<open>
  \<open>StreamGet\<close> builds a GET request, stamps it with the generated headers (the custom
  headers of the options are not laid over them), and sends it through a client of its
  own whose redirect check returns \<open>http.ErrUseLastResponse\<close>: the first response,
  redirect or not, is the one that is streamed. The function makes no call of
  \<open>updateHistory\<close>. \<open>Streams\<close> holds what \<open>StreamResponse\<close> reads of a response, its
  encoding header and its body, and the decompressors.
\<close>

record Streams =
  decoders :: Codecs
  sourceOf :: "Response \<Rightarrow> StreamSource"

definition StreamGet ::
  "Env \<Rightarrow> Streams \<Rightarrow> BrowserClient \<Rightarrow> World \<Rightarrow> string \<Rightarrow> StreamConfig \<Rightarrow> RequestOptions list
    \<Rightarrow> (error + StreamResult) \<times> BrowserClient \<times> World" where
  "StreamGet env streams bc w url config options =
     (case parseURL env url of
        None \<Rightarrow> (Inl (BadURL url), bc, w)
      | Some (u, p) \<Rightarrow>
          (let opts = mergeOptions bc options;
               hb = SetContext (headerBuilder bc) (IsNavigate opts) (Referrer opts) (Origin opts);
               req = BuildHeaders hb \<lparr>Method = ''GET'', URL = u, Path = p, Header = []\<rparr>
                       (randOf env (built w));
               bc' = bc\<lparr>headerBuilder := hb\<rparr>;
               w' = w\<lparr>sent := sent w + 1, built := built w + 1\<rparr>
           in (case roundTrip env (sent w) req of
                 Failed e \<Rightarrow> (Inl (UrlError (SendFailed e)), bc', w')
               | Final resp \<Rightarrow> (StreamResponse (decoders streams) (sourceOf streams resp) config, bc', w')
               | Redirect resp nxt \<Rightarrow>
                   (StreamResponse (decoders streams) (sourceOf streams resp) config, bc', w'))))"

section \<open>Auxiliary notions and scenarios\<close>

text \<open>
  The header-builder context and the stamped request that \<open>Do\<close> computes before it
  hands over to the transport, named so that lemmas can refer to them.
\<close>

definition requestContext :: "BrowserClient \<Rightarrow> RequestOptions list \<Rightarrow> HeaderBuilder" where
  "requestContext bc options =
     SetContext (headerBuilder bc) (IsNavigate (mergeOptions bc options))
       (Referrer (mergeOptions bc options)) (Origin (mergeOptions bc options))"

definition stampRequest :: "Env \<Rightarrow> BrowserClient \<Rightarrow> World \<Rightarrow> Request \<Rightarrow> RequestOptions list \<Rightarrow> Request" where
  "stampRequest env bc w req options =
     fold (\<lambda>(k, v) rq. rq\<lparr>Header := HeaderSet (Header rq) k v\<rparr>)
       (case Headers (mergeOptions bc options) of None \<Rightarrow> [] | Some hs \<Rightarrow> hs)
       (BuildHeaders (requestContext bc options) req (randOf env (built w)))"

text \<open>
  The calls a caller can make on a client, and runs of them one after the other on one
  client; the outcomes are collected in order. \<open>answered\<close> lists, for one call, the URLs
  of the requests that went through \<open>Do\<close> and came back with a response: at most one for
  \<open>Do\<close>, \<open>Get\<close> and \<open>Post\<close>, one for every answered attempt of \<open>GetWithRetry\<close>
  (\<open>retryAnswered\<close> goes along its loop), and none for \<open>StreamGet\<close>, which does not go
  through \<open>Do\<close>. \<open>answeredRun\<close> lists them for a run.
\<close>

datatype Call =
    CallDo Request "RequestOptions list"
  | CallGet string "RequestOptions list"
  | CallPost string string string "RequestOptions list"
  | CallGetWithRetry string int "RequestOptions list"
  | CallStreamGet string StreamConfig "RequestOptions list"

datatype Outcome = Answered "error + Response" | Streamed "error + StreamResult"

fun perform :: "Env \<Rightarrow> Streams \<Rightarrow> BrowserClient \<Rightarrow> World \<Rightarrow> Call \<Rightarrow> Outcome \<times> BrowserClient \<times> World" where
  "perform env streams bc w (CallDo req options) =
     (case Do env bc w req options of (res, bc', w') \<Rightarrow> (Answered res, bc', w'))"
| "perform env streams bc w (CallGet url options) =
     (case Get env bc w url options of (res, bc', w') \<Rightarrow> (Answered res, bc', w'))"
| "perform env streams bc w (CallPost url contentType body options) =
     (case Post env bc w url contentType body options of (res, bc', w') \<Rightarrow> (Answered res, bc', w'))"
| "perform env streams bc w (CallGetWithRetry url maxRetries options) =
     (case GetWithRetry env bc w url maxRetries options of (res, bc', w') \<Rightarrow> (Answered res, bc', w'))"
| "perform env streams bc w (CallStreamGet url config options) =
     (case StreamGet env streams bc w url config options of (res, bc', w') \<Rightarrow> (Streamed res, bc', w'))"

fun runCalls ::
  "Env \<Rightarrow> Streams \<Rightarrow> BrowserClient \<Rightarrow> World \<Rightarrow> Call list \<Rightarrow> BrowserClient \<times> World \<times> Outcome list" where
  "runCalls env streams bc w [] = (bc, w, [])"
| "runCalls env streams bc w (c # cs) =
     (let out = perform env streams bc w c;
          further = runCalls env streams (fst (snd out)) (snd (snd out)) cs
      in (fst further, fst (snd further), fst out # snd (snd further)))"

definition gotResponse :: "error + Response \<Rightarrow> bool" where
  "gotResponse res = (case res of Inl err \<Rightarrow> False | Inr resp \<Rightarrow> True)"

definition answeredBy :: "error + Response \<Rightarrow> string \<Rightarrow> string list" where
  "answeredBy res u = (if gotResponse res then [u] else [])"

function retryAnswered ::
  "Env \<Rightarrow> string \<Rightarrow> int \<Rightarrow> RequestOptions list \<Rightarrow> int \<Rightarrow> int \<Rightarrow> BrowserClient \<Rightarrow> World \<Rightarrow> string list" where
  "retryAnswered env url maxRetries options i backoff bc w =
     (if i \<le> maxRetries then
        (let out = Get env bc w url options;
             bc' = fst (snd out);
             w' = snd (snd out);
             now = (case parseURL env url of None \<Rightarrow> [] | Some (u, p) \<Rightarrow> answeredBy (fst out) u)
         in if attemptDone (fst out) then now
            else if i < maxRetries then
              now @ retryAnswered env url maxRetries options (i + 1)
                      (if backoff * 2 > 30 then 30 else backoff * 2) bc' (w'\<lparr>slept := slept w' @ [backoff]\<rparr>)
            else now @ retryAnswered env url maxRetries options (i + 1) backoff bc' w')
      else [])"
  by pat_completeness auto
termination
  by (relation "measure (\<lambda>(env, url, maxRetries, options, i, backoff, bc, w). nat (maxRetries + 1 - i))") auto

declare retryAnswered.simps [simp del]

fun answered :: "Env \<Rightarrow> Streams \<Rightarrow> BrowserClient \<Rightarrow> World \<Rightarrow> Call \<Rightarrow> string list" where
  "answered env streams bc w (CallDo req options) = answeredBy (fst (Do env bc w req options)) (URL req)"
| "answered env streams bc w (CallGet url options) =
     (case parseURL env url of
        None \<Rightarrow> []
      | Some (u, p) \<Rightarrow> answeredBy (fst (Get env bc w url options)) u)"
| "answered env streams bc w (CallPost url contentType body options) =
     (case parseURL env url of
        None \<Rightarrow> []
      | Some (u, p) \<Rightarrow> answeredBy (fst (Post env bc w url contentType body options)) u)"
| "answered env streams bc w (CallGetWithRetry url maxRetries options) =
     retryAnswered env url maxRetries options 0 1 bc w"
| "answered env streams bc w (CallStreamGet url config options) = []"

fun answeredRun :: "Env \<Rightarrow> Streams \<Rightarrow> BrowserClient \<Rightarrow> World \<Rightarrow> Call list \<Rightarrow> string list" where
  "answeredRun env streams bc w [] = []"
| "answeredRun env streams bc w (c # cs) =
     answered env streams bc w c
       @ answeredRun env streams (fst (snd (perform env streams bc w c))) (snd (snd (perform env streams bc w c))) cs"

text \<open>The last \<open>n\<close> elements of a list, all of it when it is shorter.\<close>

definition lastN :: "nat \<Rightarrow> 'a list \<Rightarrow> 'a list" where
  "lastN n xs = drop (length xs - n) xs"

text \<open>
  Concrete surroundings for the worked examples: the Safari profile of the table, a
  fresh world, a server that answers the first \<open>n\<close> requests with a redirect and
  every later one with 200, and a server whose first exchange fails in the transport and
  that answers 503 afterwards.
\<close>

definition exampleProfile :: BrowserProfile where
  "exampleProfile = \<lparr>Ptr = 0, UserAgent = userAgents ! 7, Language = ''en-US,en;q=0.9,pt-BR;q=0.8''\<rparr>"

definition startWorld :: World where
  "startWorld = \<lparr>sent = 0, built = 0, slept = []\<rparr>"

definition getRequest :: "string \<Rightarrow> Request" where
  "getRequest u = \<lparr>Method = ''GET'', URL = u, Path = ''/'', Header = []\<rparr>"

definition chainEnv :: "nat \<Rightarrow> Env" where
  "chainEnv n =
     \<lparr>parseURL = (\<lambda>u. Some (u, ''/'')),
      roundTrip = (\<lambda>k rq. if k < n
                            then Redirect \<lparr>StatusCode = 302, Payload = []\<rparr> (getRequest ''https://example.com/next'')
                            else Final \<lparr>StatusCode = 200, Payload = ''done''\<rparr>),
      randOf = (\<lambda>k i. 1 / 2)\<rparr>"

definition flakyEnv :: Env where
  "flakyEnv =
     \<lparr>parseURL = (\<lambda>u. Some (u, ''/'')),
      roundTrip = (\<lambda>k rq. if k = 0 then Failed ''connection refused''
                            else Final \<lparr>StatusCode = 503, Payload = []\<rparr>),
      randOf = (\<lambda>k i. 1 / 2)\<rparr>"

text \<open>
  \<open>generatedKeys\<close> lists every key that \<open>generateHeaders\<close> can write;
  \<open>familyKeys\<close> are those written before the random block.
\<close>

definition generatedKeys :: "string list" where
  "generatedKeys =
     [''User-Agent'', ''Accept-Language'', ''Connection'', ''Accept'', ''Accept-Encoding'',
      ''Sec-Ch-Ua'', ''Sec-Ch-Ua-Mobile'', ''Sec-Ch-Ua-Platform'', ''Sec-Fetch-Site'',
      ''Sec-Fetch-Mode'', ''Sec-Fetch-Dest'', ''Sec-Fetch-User'', ''Upgrade-Insecure-Requests'',
      ''Sec-Ch-Ua-Platform-Version'', ''TE'', ''Referer'', ''Origin'', ''DNT'', ''Cache-Control'']"

definition familyKeys :: "string list" where
  "familyKeys =
     [''User-Agent'', ''Accept-Language'', ''Connection'', ''Accept'', ''Accept-Encoding'',
      ''Sec-Ch-Ua'', ''Sec-Ch-Ua-Mobile'', ''Sec-Ch-Ua-Platform'', ''Sec-Fetch-Site'',
      ''Sec-Fetch-Mode'', ''Sec-Fetch-Dest'', ''Sec-Fetch-User'', ''Upgrade-Insecure-Requests'',
      ''Sec-Ch-Ua-Platform-Version'', ''TE'', ''Referer'', ''Origin'']"

text \<open>
  The number of \<open>Float32\<close> calls that the browser switch makes before the random
  block: one for Chrome and for Firefox, none otherwise.
\<close>

definition familyDraws :: "string \<Rightarrow> nat" where
  "familyDraws browser = (if browser = ''Chrome'' \<or> browser = ''Firefox'' then 1 else 0)"

text \<open>
  Frequencies over a uniform random source. The three draws of the random block are
  taken from the grid \<open>0/N, 1/N, \<dots>, (N-1)/N\<close>, every triple equally likely:
  \<open>drawn N r n (a, b, c)\<close> is the stream \<open>r\<close> with the draws number \<open>n\<close>, \<open>n+1\<close>,
  \<open>n+2\<close> replaced by \<open>a/N\<close>, \<open>b/N\<close>, \<open>c/N\<close>, and \<open>frequency N E\<close> is the share of
  the \<open>N\<^sup>3\<close> triples for which \<open>E\<close> holds.
\<close>

definition drawn :: "nat \<Rightarrow> Rand \<Rightarrow> nat \<Rightarrow> nat \<times> nat \<times> nat \<Rightarrow> Rand" where
  "drawn N r n t =
     (case t of (a, b, c) \<Rightarrow>
        r(n := of_nat a / of_nat N, n + 1 := of_nat b / of_nat N, n + 2 := of_nat c / of_nat N))"

definition frequency :: "nat \<Rightarrow> (nat \<times> nat \<times> nat \<Rightarrow> bool) \<Rightarrow> rat" where
  "frequency N E = of_nat (card {t \<in> {..<N} \<times> {..<N} \<times> {..<N}. E t}) / of_nat (N ^ 3)"

text \<open>
  The lines of a text: the pieces that end with a newline, and the rest after the last
  newline when it is not empty. \<open>stopsAt\<close> says that a line contains the configured
  stop-substring; \<open>throughFirst P ls\<close> is the text of the lines through the first one
  that satisfies \<open>P\<close>.
\<close>

function linesOf :: "string \<Rightarrow> string list" where
  "linesOf s =
     (case splitLine s of
        None \<Rightarrow> (if s = [] then [] else [s])
      | Some (line, rest) \<Rightarrow> line # linesOf rest)"
  by pat_completeness auto
termination
proof (relation "measure length", goal_cases)
  case 1
  show ?case by simp
next
  case (2 s x line rest)
  then have "splitLine s = Some (line, rest)" by simp
  then show ?case using splitLine_Some [of s line rest] by simp
qed

declare linesOf.simps [simp del]

fun throughFirst :: "(string \<Rightarrow> bool) \<Rightarrow> string list \<Rightarrow> string option" where
  "throughFirst P [] = None"
| "throughFirst P (l # ls) = (if P l then Some l else map_option (\<lambda>further. l @ further) (throughFirst P ls))"

definition stopsAt :: "StreamConfig \<Rightarrow> string \<Rightarrow> bool" where
  "stopsAt config line \<longleftrightarrow> StopOnContent config \<noteq> [] \<and> Contains line (StopOnContent config)"

text \<open>
  What a result of the stream loop has to account for, given the ending of the stream,
  the lines still to come and the content gathered before: a failure carries the read
  error that ended the stream, and no line contained the stop-substring; a success holds
  the content followed by some first lines, where either the last of them is the first to
  contain the stop-substring (found), or none contains it and the byte ceiling is reached
  or the stream ended (not found).
\<close>

definition accounted :: "StreamConfig \<Rightarrow> ReadError \<Rightarrow> string list \<Rightarrow> string \<Rightarrow> error + StreamResult \<Rightarrow> bool" where
  "accounted config trm ls content out =
     (case out of
        Inl err \<Rightarrow> (\<exists>e. err = ReadFailed e \<and> trm = Broken e) \<and> (\<forall>l \<in> set ls. \<not> stopsAt config l)
      | Inr res \<Rightarrow>
          (\<exists>pre post. ls = pre @ post \<and> Content res = content @ concat pre
             \<and> (if FoundContent res
                  then pre \<noteq> [] \<and> stopsAt config (last pre) \<and> (\<forall>l \<in> set (butlast pre). \<not> stopsAt config l)
                  else (\<forall>l \<in> set pre. \<not> stopsAt config l)
                       \<and> (0 < MaxBytes config \<and> MaxBytes config \<le> BytesRead res
                            \<or> post = [] \<and> trm = EOF))))"

text \<open>
  The stream reader told by lines. The decoder delivers the text in pieces, and the
  reader fetches whole pieces, one more whenever the text fetched holds no complete line
  to hand out. \<open>fetchedBytes n pieces\<close> is the size of the shortest run of first pieces
  that covers \<open>n\<close> characters of text, and \<open>unfetched n pieces\<close> are the pieces after
  it. \<open>scanLines\<close> goes through the lines of the text; \<open>off\<close> is the length of the text
  of the lines before. Before each line the ceiling is compared with the bytes fetched
  for the lines before (\<open>atCeiling\<close>), and the scan stops there without error when it is
  reached. Otherwise the line is read: a line that contains the stop-substring ends the
  scan as found, with the bytes fetched through that line; a line that ends with a
  newline without containing it is added to the content and the scan goes on. After the
  last line, or at a last line without newline, the stream has been read whole and its
  ending decides (\<open>atEnd\<close>): end-of-stream gives the content, not found, with the size
  of the whole text; any other read error is the failure.
\<close>

fun fetchedBytes :: "nat \<Rightarrow> string list \<Rightarrow> nat" where
  "fetchedBytes need [] = 0"
| "fetchedBytes need (c # cs) = (if need = 0 then 0 else length c + fetchedBytes (need - length c) cs)"

fun unfetched :: "nat \<Rightarrow> string list \<Rightarrow> string list" where
  "unfetched need [] = []"
| "unfetched need (c # cs) = (if need = 0 then c # cs else unfetched (need - length c) cs)"

definition atCeiling :: "StreamConfig \<Rightarrow> string list \<Rightarrow> nat \<Rightarrow> bool" where
  "atCeiling config pieces off \<longleftrightarrow> 0 < MaxBytes config \<and> MaxBytes config \<le> int (fetchedBytes off pieces)"

definition atEnd :: "string list \<Rightarrow> ReadError \<Rightarrow> string \<Rightarrow> error + StreamResult" where
  "atEnd pieces trm content =
     (case trm of
        EOF \<Rightarrow> Inr \<lparr>BytesRead = int (length (concat pieces)), Content = content, FoundContent = False\<rparr>
      | Broken e \<Rightarrow> Inl (ReadFailed e))"

fun scanLines :: "StreamConfig \<Rightarrow> string list \<Rightarrow> ReadError \<Rightarrow> nat \<Rightarrow> string \<Rightarrow> string list \<Rightarrow> error + StreamResult" where
  "scanLines config pieces trm off content [] =
     (if atCeiling config pieces off
      then Inr \<lparr>BytesRead = int (fetchedBytes off pieces), Content = content, FoundContent = False\<rparr>
      else atEnd pieces trm content)"
| "scanLines config pieces trm off content (l # ls) =
     (if atCeiling config pieces off
      then Inr \<lparr>BytesRead = int (fetchedBytes off pieces), Content = content, FoundContent = False\<rparr>
      else if stopsAt config l
      then Inr \<lparr>BytesRead = int (fetchedBytes (off + length l) pieces), Content = content @ l, FoundContent = True\<rparr>
      else if CHR 0x0A \<in> set l
      then scanLines config pieces trm (off + length l) (content @ l) ls
      else atEnd pieces trm (content @ l))"

text \<open>
  Examples for the stream reader: a gzip decoder whose output arrives in two pieces, with
  the word "needle" on the third of four lines, a plain body of three lines, and
  responses that all carry this plain body. For the profile store: the empty store, and seeds that give the first generated profile a
  Chrome user agent and every later one a Firefox user agent.
\<close>

definition exampleCodecs :: Codecs where
  "exampleCodecs =
     \<lparr>gzipNewReader = (\<lambda>raw. Inr \<lparr>chunks = [''line one\<newline>line '', ''two\<newline>the needle is here\<newline>line four\<newline>''],
                                      ending = EOF\<rparr>),
      zlibNewReader = (\<lambda>raw. Inl (BadEncoding ''zlib: invalid header''))\<rparr>"

definition gzipSource :: StreamSource where
  "gzipSource = \<lparr>ContentEncoding = ''gzip'', RespBody = \<lparr>chunks = [''(compressed bytes)''], ending = EOF\<rparr>\<rparr>"

definition plainSource :: StreamSource where
  "plainSource = \<lparr>ContentEncoding = [], RespBody = \<lparr>chunks = [''a\<newline>b\<newline>c\<newline>''], ending = EOF\<rparr>\<rparr>"

definition exampleStreams :: Streams where
  "exampleStreams = \<lparr>decoders = exampleCodecs, sourceOf = (\<lambda>resp. plainSource)\<rparr>"

definition emptyStore :: ProfileStore where
  "emptyStore = \<lparr>threadProfiles = Map.empty, allocated = 0\<rparr>"

definition exampleSeeds :: "nat \<Rightarrow> nat \<Rightarrow> nat" where
  "exampleSeeds n = (if n = 0 then (\<lambda>i. 0) else (\<lambda>i. 5))"

section \<open>Family resolution: properties\<close>

lemma detectBrowser_cases:
  "detectBrowser ua = ''Firefox'' \<or> detectBrowser ua = ''Safari'' \<or>
   detectBrowser ua = ''Edge'' \<or> detectBrowser ua = ''Chrome''"
  by (simp add: detectBrowser_def)

text \<open>
  Claim C2, as the code has it. Family resolution is a total function of the user-agent
  string with values among Chrome, Firefox, Safari and Edge. The checks are made in a
  fixed order, so each result has an exact condition: Firefox when the string contains
  "Firefox"; Safari when it contains "Safari" and neither "Firefox" nor "Chrome"; Edge
  when it contains "Edg/" and neither of the two earlier checks matched; Chrome in
  every other case. In particular Safari is returned only with "Safari" present and
  "Chrome" absent, and a string containing none of "Firefox", "Safari", "Edg/" resolves
  to Chrome.
\<close>

theorem C2_detectBrowser_resolution:
  "detectBrowser ua \<in> {''Chrome'', ''Firefox'', ''Safari'', ''Edge''}
   \<and> (detectBrowser ua = ''Firefox'' \<longleftrightarrow> Contains ua ''Firefox'')
   \<and> (detectBrowser ua = ''Safari'' \<longleftrightarrow>
        \<not> Contains ua ''Firefox'' \<and> Contains ua ''Safari'' \<and> \<not> Contains ua ''Chrome'')
   \<and> (detectBrowser ua = ''Edge'' \<longleftrightarrow>
        \<not> Contains ua ''Firefox'' \<and> \<not> (Contains ua ''Safari'' \<and> \<not> Contains ua ''Chrome'')
        \<and> Contains ua ''Edg/'')
   \<and> (detectBrowser ua = ''Chrome'' \<longleftrightarrow>
        \<not> Contains ua ''Firefox'' \<and> \<not> (Contains ua ''Safari'' \<and> \<not> Contains ua ''Chrome'')
        \<and> \<not> Contains ua ''Edg/'')"
  by (simp add: detectBrowser_def)

theorem C2_detectBrowser_resolution_witness:
  "detectBrowser ''Mozilla/5.0 Chrome/125.0.0.0 Safari/537.36 Edg/125.0.0.0'' = ''Edge''
   \<and> Contains ''Mozilla/5.0 Chrome/125.0.0.0 Safari/537.36 Edg/125.0.0.0'' ''Edg/''
   \<and> \<not> Contains ''Mozilla/5.0 Chrome/125.0.0.0 Safari/537.36 Edg/125.0.0.0'' ''Firefox''"
  using C2_detectBrowser_resolution [of "''Mozilla/5.0 Chrome/125.0.0.0 Safari/537.36 Edg/125.0.0.0''"]
  by simp

text \<open>
  The claim as stated, "Edge whenever the string contains Edg/", fails: the Firefox
  check comes first.
\<close>

theorem C2_edge_counterexample:
  "Contains ''Mozilla/5.0 Firefox/126.0 Edg/125.0'' ''Edg/''
   \<and> detectBrowser ''Mozilla/5.0 Firefox/126.0 Edg/125.0'' \<noteq> ''Edge''"
  by (simp add: detectBrowser_def)

section \<open>Fingerprint selection against header family\<close>

lemma userAgents_0:
  "userAgents ! 0 =
   ''Mozilla/5.0 (Windows NT 10.0; Win64; x64) AppleWebKit/537.36 (KHTML, like Gecko) Chrome/125.0.0.0 Safari/537.36''"
  by (simp add: userAgents_def)

text \<open>
  Claim C1 at a failing input. The first user agent of the profile table contains both
  "Chrome" and "Safari". The Header Engine resolves it to Chrome. When the map
  iteration of \<open>selectFingerprint\<close> visits the key "Safari" before "Chrome", the
  selector stops at Safari and, for every value of the random source, returns one of the
  Safari templates, none of which is in the Chrome row of the table.
\<close>

theorem C1_fingerprint_family_mismatch:
  "detectBrowser (userAgents ! 0) = ''Chrome''
   \<and> keyOrder [''Safari'', ''Chrome'', ''Firefox'', ''Edge'']
   \<and> (\<exists>fp. selectFingerprint (userAgents ! 0) False [''Safari'', ''Chrome'', ''Firefox'', ''Edge''] r = Some fp
          \<and> fp \<in> set (fingerprintsOf ''Safari'')
          \<and> fp \<notin> set (fingerprintsOf (detectBrowser (userAgents ! 0))))"
proof -
  have db: "detectBrowser (userAgents ! 0) = ''Chrome''"
    unfolding userAgents_0 by (simp add: detectBrowser_def)
  have ko: "keyOrder [''Safari'', ''Chrome'', ''Firefox'', ''Edge'']"
    by (auto simp add: keyOrder_def browserFingerprints_def)
  have rb: "rangeBrowser (userAgents ! 0) [''Safari'', ''Chrome'', ''Firefox'', ''Edge''] ''Chrome'' = ''Safari''"
    unfolding userAgents_0 by simp
  have fs: "fingerprintsOf ''Safari'' = [HelloSafari_Auto, HelloSafari_16_0, HelloIOS_Auto]"
    by (simp add: fingerprintsOf_def browserFingerprints_def)
  have fc: "fingerprintsOf ''Chrome'' = [HelloChrome_Auto, HelloChrome_120]"
    by (simp add: fingerprintsOf_def browserFingerprints_def)
  have eq: "selectFingerprint (userAgents ! 0) False [''Safari'', ''Chrome'', ''Firefox'', ''Edge''] r
      = Some ([HelloSafari_Auto, HelloSafari_16_0, HelloIOS_Auto] ! (r mod 3))"
    unfolding selectFingerprint_def rb by (simp add: fs Intn_def)
  have lt: "r mod 3 < 3" by simp
  then consider "r mod 3 = 0" | "r mod 3 = 1" | "r mod 3 = 2" by linarith
  then have sel: "\<exists>fp. selectFingerprint (userAgents ! 0) False [''Safari'', ''Chrome'', ''Firefox'', ''Edge''] r = Some fp
          \<and> fp \<in> set (fingerprintsOf ''Safari'') \<and> fp \<notin> set (fingerprintsOf ''Chrome'')"
    unfolding eq fs fc by cases simp_all
  show ?thesis using db ko sel by simp
qed

section \<open>Navigation history\<close>

lemma checkRedirect_history:
  "checkRedirect env bc w req via = (e, req', bc', w') \<Longrightarrow> history bc' = history bc"
  by (auto simp add: checkRedirect_def Let_def split: if_splits)

lemma checkRedirect_sent:
  "checkRedirect env bc w req via = (e, req', bc', w') \<Longrightarrow> sent w' = sent w"
  by (auto simp add: checkRedirect_def Let_def split: if_splits)

lemma checkRedirect_stops:
  "length via \<ge> 10 \<Longrightarrow> checkRedirect env bc w req via = (Some StoppedAfter10Redirects, req, bc, w)"
  by (simp add: checkRedirect_def)

lemma checkRedirect_None:
  "length via < 10 \<Longrightarrow> fst (checkRedirect env bc w req via) = None"
  by (simp add: checkRedirect_def Let_def)

lemma clientDo_history:
  "history (fst (snd (clientDo env bc w via req))) = history bc"
proof (induction env bc w via req rule: clientDo.induct)
  case (1 env bc w via req)
  show ?case
  proof (cases "roundTrip env (sent w) req")
    case (Failed e)
    then show ?thesis by (simp add: clientDo.simps)
  next
    case (Final resp)
    then show ?thesis by (simp add: clientDo.simps)
  next
    case (Redirect resp nxt)
    obtain e nxt' bc' w' where cr:
      "checkRedirect env bc (w\<lparr>sent := sent w + 1\<rparr>) nxt (via @ [req]) = (e, nxt', bc', w')"
      by (metis prod_cases4)
    have h: "history bc' = history bc" using cr by (rule checkRedirect_history)
    show ?thesis
    proof (cases e)
      case None
      have "history (fst (snd (clientDo env bc' w' (via @ [req]) nxt'))) = history bc'"
        using "1.IH" [OF Redirect cr [symmetric, unfolded None] refl refl] None cr by simp
      then show ?thesis using Redirect cr None h by (simp add: clientDo.simps [of env bc w via req])
    next
      case (Some err)
      then show ?thesis using Redirect cr h by (simp add: clientDo.simps [of env bc w via req])
    qed
  qed
qed

lemma Do_history:
  "history (fst (snd (Do env bc w req options))) =
     (case fst (Do env bc w req options) of
        Inl err \<Rightarrow> history bc
      | Inr resp \<Rightarrow> history (updateHistory bc (URL req)))"
proof -
  define hb where "hb = SetContext (headerBuilder bc) (IsNavigate (mergeOptions bc options))
      (Referrer (mergeOptions bc options)) (Origin (mergeOptions bc options))"
  define req2 where "req2 = fold (\<lambda>(k, v) rq. rq\<lparr>Header := HeaderSet (Header rq) k v\<rparr>)
                   (case Headers (mergeOptions bc options) of None \<Rightarrow> [] | Some hs \<Rightarrow> hs)
                   (BuildHeaders hb req (randOf env (built w)))"
  obtain res bc' w' where cd: "clientDo env (bc\<lparr>headerBuilder := hb\<rparr>) (w\<lparr>built := built w + 1\<rparr>) [] req2 = (res, bc', w')"
    by (metis prod_cases3)
  have "history bc' = history (bc\<lparr>headerBuilder := hb\<rparr>)"
    using clientDo_history [of env "bc\<lparr>headerBuilder := hb\<rparr>" "w\<lparr>built := built w + 1\<rparr>" "[]" req2] cd by simp
  then have h: "history bc' = history bc" by simp
  have D: "Do env bc w req options = (case res of Inl err \<Rightarrow> (Inl err, bc', w') | Inr resp \<Rightarrow> (Inr resp, updateHistory bc' (URL req), w'))"
    using cd by (simp add: Do_def Let_def hb_def req2_def split: sum.splits)
  show ?thesis unfolding D using h by (cases res) (simp_all add: updateHistory_def Let_def)
qed

lemma lastN_append_lastN: "lastN n (lastN n xs @ ys) = lastN n (xs @ ys)"
proof (cases "n \<le> length xs")
  case True
  then show ?thesis by (simp add: lastN_def add.commute)
next
  case False
  then show ?thesis by (simp add: lastN_def)
qed

lemma updateHistory_lastN:
  assumes "length (history bc) \<le> 10"
  shows "history (updateHistory bc url) = lastN 10 (history bc @ [url])"
proof (cases "length (history bc) = 10")
  case True
  then show ?thesis by (simp add: updateHistory_def Let_def lastN_def)
next
  case False
  with assms have "length (history bc) < 10" by simp
  then show ?thesis by (simp add: updateHistory_def Let_def lastN_def)
qed

lemma Do_eq:
  "Do env bc w req options =
     (case clientDo env (bc\<lparr>headerBuilder := requestContext bc options\<rparr>) (w\<lparr>built := built w + 1\<rparr>) []
             (stampRequest env bc w req options) of
        (Inl err, bc', w') \<Rightarrow> (Inl err, bc', w')
      | (Inr resp, bc', w') \<Rightarrow> (Inr resp, updateHistory bc' (URL req), w'))"
  by (simp add: Do_def requestContext_def stampRequest_def Let_def)

lemma Do_result:
  "fst (Do env bc w req options) =
     fst (clientDo env (bc\<lparr>headerBuilder := requestContext bc options\<rparr>) (w\<lparr>built := built w + 1\<rparr>) []
             (stampRequest env bc w req options))"
  by (simp add: Do_eq split: prod.splits sum.splits)

lemma lastN_short: "length xs \<le> n \<Longrightarrow> lastN n xs = xs"
  by (simp add: lastN_def)

lemma lastN_length: "length (lastN n xs) \<le> n"
  by (simp add: lastN_def)

lemma Do_answered:
  assumes "length (history bc) \<le> 10"
  shows "history (fst (snd (Do env bc w req options)))
           = lastN 10 (history bc @ answeredBy (fst (Do env bc w req options)) (URL req))"
proof (cases "fst (Do env bc w req options)")
  case (Inl err)
  then show ?thesis
    using Do_history [of env bc w req options] assms
    by (simp add: answeredBy_def gotResponse_def lastN_short)
next
  case (Inr resp)
  then show ?thesis
    using Do_history [of env bc w req options] assms
    by (simp add: answeredBy_def gotResponse_def updateHistory_lastN)
qed

lemma Get_answered:
  assumes "length (history bc) \<le> 10"
  shows "history (fst (snd (Get env bc w url options)))
           = lastN 10 (history bc @ (case parseURL env url of
                                        None \<Rightarrow> []
                                      | Some (u, p) \<Rightarrow> answeredBy (fst (Get env bc w url options)) u))"
proof (cases "parseURL env url")
  case None
  then show ?thesis using assms by (simp add: Get_def lastN_short)
next
  case (Some up)
  obtain u p where up: "up = (u, p)" by (cases up)
  show ?thesis
    using Do_answered [OF assms, of env w "\<lparr>Method = ''GET'', URL = u, Path = p, Header = []\<rparr>" options] Some up
    by (simp add: Get_def)
qed

lemma Post_answered:
  assumes "length (history bc) \<le> 10"
  shows "history (fst (snd (Post env bc w url contentType body options)))
           = lastN 10 (history bc @ (case parseURL env url of
                                        None \<Rightarrow> []
                                      | Some (u, p) \<Rightarrow> answeredBy (fst (Post env bc w url contentType body options)) u))"
proof (cases "parseURL env url")
  case None
  then show ?thesis using assms by (simp add: Post_def lastN_short)
next
  case (Some up)
  obtain u p where up: "up = (u, p)" by (cases up)
  show ?thesis
    using Do_answered [OF assms, of env w
        "\<lparr>Method = ''POST'', URL = u, Path = p,
          Header = HeaderSet (HeaderSet [] ''Content-Type'' contentType)
                     ''Content-Length'' (showNat (length body))\<rparr>" options] Some up
    by (simp add: Post_def)
qed

lemma StreamGet_history:
  "history (fst (snd (StreamGet env streams bc w url config options))) = history bc"
  by (simp add: StreamGet_def Let_def split: option.splits RoundTrip.splits prod.splits)

lemma retryLoop_answered:
  assumes "length (history bc) \<le> 10"
  shows "history (fst (snd (retryLoop env url maxRetries options i lastErr backoff bc w)))
           = lastN 10 (history bc @ retryAnswered env url maxRetries options i backoff bc w)"
  using assms
proof (induction env url maxRetries options i lastErr backoff bc w rule: retryLoop.induct)
  case (1 env url maxRetries options i lastErr backoff bc w)
  let ?out = "Get env bc w url options"
  let ?now = "case parseURL env url of None \<Rightarrow> [] | Some (u, p) \<Rightarrow> answeredBy (fst ?out) u"
  show ?case
  proof (cases "i \<le> maxRetries")
    case False
    then show ?thesis
      using "1.prems"
      by (simp add: retryLoop.simps [of env url maxRetries options i]
          retryAnswered.simps [of env url maxRetries options i] lastN_short)
  next
    case le: True
    have h1: "history (fst (snd ?out)) = lastN 10 (history bc @ ?now)"
      using "1.prems" by (rule Get_answered)
    have len1: "length (history (fst (snd ?out))) \<le> 10" unfolding h1 by (rule lastN_length)
    show ?thesis
    proof (cases "attemptDone (fst ?out)")
      case True
      then show ?thesis
        using le h1
        by (simp add: retryLoop.simps [of env url maxRetries options i]
            retryAnswered.simps [of env url maxRetries options i] Let_def)
    next
      case nd: False
      show ?thesis
      proof (cases "i < maxRetries")
        case True
        let ?b = "if backoff * 2 > 30 then 30 else backoff * 2"
        let ?w = "(snd (snd ?out))\<lparr>slept := slept (snd (snd ?out)) @ [backoff]\<rparr>"
        have "history (fst (snd (retryLoop env url maxRetries options (i + 1) (attemptErr (fst ?out)) ?b (fst (snd ?out)) ?w)))
                = lastN 10 (history (fst (snd ?out)) @ retryAnswered env url maxRetries options (i + 1) ?b (fst (snd ?out)) ?w)"
          using "1.IH"(1) [OF le refl refl refl nd True len1] .
        also have "\<dots> = lastN 10 ((history bc @ ?now) @ retryAnswered env url maxRetries options (i + 1) ?b (fst (snd ?out)) ?w)"
          unfolding h1 by (rule lastN_append_lastN)
        finally have calc: "history (fst (snd (retryLoop env url maxRetries options (i + 1) (attemptErr (fst ?out)) ?b (fst (snd ?out)) ?w)))
                = lastN 10 ((history bc @ ?now) @ retryAnswered env url maxRetries options (i + 1) ?b (fst (snd ?out)) ?w)" .
        have L: "retryLoop env url maxRetries options i lastErr backoff bc w
                   = retryLoop env url maxRetries options (i + 1) (attemptErr (fst ?out)) ?b (fst (snd ?out)) ?w"
          using le nd True by (subst retryLoop.simps) (simp add: Let_def)
        have R: "retryAnswered env url maxRetries options i backoff bc w
                   = ?now @ retryAnswered env url maxRetries options (i + 1) ?b (fst (snd ?out)) ?w"
          using le nd True by (subst retryAnswered.simps) (simp add: Let_def)
        show ?thesis using calc by (simp only: L R append_assoc)
      next
        case False
        have "history (fst (snd (retryLoop env url maxRetries options (i + 1) (attemptErr (fst ?out)) backoff (fst (snd ?out)) (snd (snd ?out)))))
                = lastN 10 (history (fst (snd ?out)) @ retryAnswered env url maxRetries options (i + 1) backoff (fst (snd ?out)) (snd (snd ?out)))"
          using "1.IH"(2) [OF le refl refl refl nd False len1] .
        also have "\<dots> = lastN 10 ((history bc @ ?now) @ retryAnswered env url maxRetries options (i + 1) backoff (fst (snd ?out)) (snd (snd ?out)))"
          unfolding h1 by (rule lastN_append_lastN)
        finally have calc: "history (fst (snd (retryLoop env url maxRetries options (i + 1) (attemptErr (fst ?out)) backoff (fst (snd ?out)) (snd (snd ?out)))))
                = lastN 10 ((history bc @ ?now) @ retryAnswered env url maxRetries options (i + 1) backoff (fst (snd ?out)) (snd (snd ?out)))" .
        have L: "retryLoop env url maxRetries options i lastErr backoff bc w
                   = retryLoop env url maxRetries options (i + 1) (attemptErr (fst ?out)) backoff (fst (snd ?out)) (snd (snd ?out))"
          using le nd False by (subst retryLoop.simps) (simp add: Let_def)
        have R: "retryAnswered env url maxRetries options i backoff bc w
                   = ?now @ retryAnswered env url maxRetries options (i + 1) backoff (fst (snd ?out)) (snd (snd ?out))"
          using le nd False by (subst retryAnswered.simps) (simp add: Let_def)
        show ?thesis using calc by (simp only: L R append_assoc)
      qed
    qed
  qed
qed

lemma perform_answered:
  assumes "length (history bc) \<le> 10"
  shows "history (fst (snd (perform env streams bc w c))) = lastN 10 (history bc @ answered env streams bc w c)"
proof (cases c)
  case (CallDo req options)
  then show ?thesis using Do_answered [OF assms, of env w req options] by (auto split: prod.splits)
next
  case (CallGet url options)
  then show ?thesis using Get_answered [OF assms, of env w url options] by (auto split: prod.splits)
next
  case (CallPost url contentType body options)
  then show ?thesis using Post_answered [OF assms, of env w url contentType body options] by (auto split: prod.splits)
next
  case (CallGetWithRetry url maxRetries options)
  then show ?thesis
    using retryLoop_answered [OF assms, of env url maxRetries options 0 None 1 w]
    by (auto simp add: GetWithRetry_def split: prod.splits)
next
  case (CallStreamGet url config options)
  then show ?thesis
    using StreamGet_history [of env streams bc w url config options] assms
    by (auto simp add: lastN_short split: prod.splits)
qed

lemma runCalls_answered:
  assumes "length (history bc) \<le> 10"
  shows "history (fst (runCalls env streams bc w cs)) = lastN 10 (history bc @ answeredRun env streams bc w cs)"
  using assms
proof (induction cs arbitrary: bc w)
  case Nil
  then show ?case by (simp add: lastN_short)
next
  case (Cons c cs)
  let ?out = "perform env streams bc w c"
  let ?bc1 = "fst (snd ?out)" and ?w1 = "snd (snd ?out)"
  have h1: "history ?bc1 = lastN 10 (history bc @ answered env streams bc w c)"
    using Cons.prems by (rule perform_answered)
  have len1: "length (history ?bc1) \<le> 10" unfolding h1 by (rule lastN_length)
  have "history (fst (runCalls env streams ?bc1 ?w1 cs)) = lastN 10 (history ?bc1 @ answeredRun env streams ?bc1 ?w1 cs)"
    using len1 by (rule Cons.IH)
  also have "\<dots> = lastN 10 ((history bc @ answered env streams bc w c) @ answeredRun env streams ?bc1 ?w1 cs)"
    unfolding h1 by (rule lastN_append_lastN)
  finally show ?case by (simp add: Let_def)
qed

lemma history_of_run:
  "history (fst (runCalls env streams (NewBrowserClient p) w cs))
     = lastN 10 (answeredRun env streams (NewBrowserClient p) w cs)
   \<and> length (history (fst (runCalls env streams (NewBrowserClient p) w cs)))
     = min (length (answeredRun env streams (NewBrowserClient p) w cs)) 10"
proof -
  have "history (fst (runCalls env streams (NewBrowserClient p) w cs))
     = lastN 10 (history (NewBrowserClient p) @ answeredRun env streams (NewBrowserClient p) w cs)"
    by (rule runCalls_answered) (simp add: NewBrowserClient_def)
  then have "history (fst (runCalls env streams (NewBrowserClient p) w cs))
     = lastN 10 (answeredRun env streams (NewBrowserClient p) w cs)"
    by (simp add: NewBrowserClient_def)
  then show ?thesis by (simp add: lastN_def)
qed

lemma chainEnv_Get:
  "fst (Get (chainEnv 0) bc w u options) = Inr \<lparr>StatusCode = 200, Payload = ''done''\<rparr>"
  by (simp add: Get_def Do_result clientDo.simps chainEnv_def)

lemma chainEnv_StreamGet:
  "fst (StreamGet (chainEnv 0) exampleStreams bc w u config options)
     = StreamResponse exampleCodecs plainSource config"
  by (simp add: StreamGet_def Let_def chainEnv_def exampleStreams_def)

lemma plain_run:
  "StreamResponse exampleCodecs plainSource \<lparr>StopOnContent = [], BufferSize = 0, MaxBytes = 0\<rparr>
     = Inr \<lparr>BytesRead = 6, Content = ''a\<newline>b\<newline>c\<newline>'', FoundContent = False\<rparr>"
  by code_simp

lemma fst_perform:
  "fst (perform env streams bc w (CallGet url options)) = Answered (fst (Get env bc w url options))"
  "fst (perform env streams bc w (CallStreamGet url config options))
     = Streamed (fst (StreamGet env streams bc w url config options))"
  by (simp_all split: prod.splits)

text \<open>
  Claim C7. For every run of calls on a fresh client, failed requests included, the
  history is the list of the last ten URLs of the requests that \<open>Do\<close> answered, in
  request order: it only grows at its end, loses its oldest entries first and never
  holds more than ten. It is not the list of the last successful requests, as the
  failing input shows: a fresh client makes three requests, a \<open>Get\<close>, a \<open>StreamGet\<close>
  and a \<open>Get\<close>, and all three succeed. The streamed request is sent on the same
  session and returns its result, yet the history afterwards holds only the URLs of the
  two \<open>Get\<close> calls: \<open>StreamGet\<close> makes no call of \<open>updateHistory\<close>, which \<open>Do\<close>
  makes after every response.
\<close>

theorem C7_stream_get_not_recorded:
  "history (fst (runCalls env streams (NewBrowserClient p) w cs))
     = lastN 10 (answeredRun env streams (NewBrowserClient p) w cs)
   \<and> length (history (fst (runCalls env streams (NewBrowserClient p) w cs)))
     = min (length (answeredRun env streams (NewBrowserClient p) w cs)) 10
   \<and> snd (snd (runCalls (chainEnv 0) exampleStreams (NewBrowserClient exampleProfile) startWorld
      [CallGet ''https://example.com/a'' [],
       CallStreamGet ''https://example.com/b'' \<lparr>StopOnContent = [], BufferSize = 0, MaxBytes = 0\<rparr> [],
       CallGet ''https://example.com/c'' []]))
     = [Answered (Inr \<lparr>StatusCode = 200, Payload = ''done''\<rparr>),
        Streamed (Inr \<lparr>BytesRead = 6, Content = ''a\<newline>b\<newline>c\<newline>'', FoundContent = False\<rparr>),
        Answered (Inr \<lparr>StatusCode = 200, Payload = ''done''\<rparr>)]
   \<and> history (fst (runCalls (chainEnv 0) exampleStreams (NewBrowserClient exampleProfile) startWorld
      [CallGet ''https://example.com/a'' [],
       CallStreamGet ''https://example.com/b'' \<lparr>StopOnContent = [], BufferSize = 0, MaxBytes = 0\<rparr> [],
       CallGet ''https://example.com/c'' []]))
     = [''https://example.com/a'', ''https://example.com/c'']"
proof -
  let ?cs = "[CallGet ''https://example.com/a'' [],
       CallStreamGet ''https://example.com/b'' \<lparr>StopOnContent = [], BufferSize = 0, MaxBytes = 0\<rparr> [],
       CallGet ''https://example.com/c'' []]"
  have p: "parseURL (chainEnv 0) u = Some (u, ''/'')" for u by (simp add: chainEnv_def)
  have outcomes: "snd (snd (runCalls (chainEnv 0) exampleStreams (NewBrowserClient exampleProfile) startWorld ?cs))
     = [Answered (Inr \<lparr>StatusCode = 200, Payload = ''done''\<rparr>),
        Streamed (Inr \<lparr>BytesRead = 6, Content = ''a\<newline>b\<newline>c\<newline>'', FoundContent = False\<rparr>),
        Answered (Inr \<lparr>StatusCode = 200, Payload = ''done''\<rparr>)]"
    by (simp add: Let_def fst_perform chainEnv_Get chainEnv_StreamGet plain_run del: perform.simps)
  have "answeredRun (chainEnv 0) exampleStreams (NewBrowserClient exampleProfile) startWorld ?cs
     = [''https://example.com/a'', ''https://example.com/c'']"
    by (simp add: p chainEnv_Get answeredBy_def gotResponse_def del: perform.simps)
  then have "history (fst (runCalls (chainEnv 0) exampleStreams (NewBrowserClient exampleProfile) startWorld ?cs))
     = [''https://example.com/a'', ''https://example.com/c'']"
    using history_of_run [of "chainEnv 0" exampleStreams exampleProfile startWorld ?cs]
    by (simp add: lastN_def)
  then have example: "history (fst (runCalls (chainEnv 0) exampleStreams (NewBrowserClient exampleProfile) startWorld ?cs))
     = [''https://example.com/a'', ''https://example.com/c'']" .
  note general = history_of_run [of env streams p w cs]
  show ?thesis by (intro conjI general [THEN conjunct1] general [THEN conjunct2] outcomes example)
qed

section \<open>Redirects\<close>

lemma clientDo_follows:
  assumes "\<forall>k<n. \<forall>rq. \<exists>resp nxt. roundTrip env (sent w + k) rq = Redirect resp nxt"
      and "\<forall>rq. roundTrip env (sent w + n) rq = Final fin"
      and "length via + n < 10"
  shows "fst (clientDo env bc w via req) = Inr fin"
  using assms
proof (induction n arbitrary: bc w via req)
  case 0
  then show ?case by (simp add: clientDo.simps)
next
  case (Suc n)
  have "0 < Suc n" by simp
  with Suc.prems(1) have "\<exists>resp nxt. roundTrip env (sent w + 0) req = Redirect resp nxt" by blast
  then obtain resp nxt where rt: "roundTrip env (sent w) req = Redirect resp nxt" by auto
  obtain e nxt' bc' w' where cr:
    "checkRedirect env bc (w\<lparr>sent := sent w + 1\<rparr>) nxt (via @ [req]) = (e, nxt', bc', w')"
    by (metis prod_cases4)
  have "length (via @ [req]) < 10" using Suc.prems(3) by simp
  then have e: "e = None" using checkRedirect_None [of "via @ [req]" env bc "w\<lparr>sent := sent w + 1\<rparr>" nxt] cr by simp
  have s: "sent w' = sent w + 1" using checkRedirect_sent [OF cr] by simp
  have "fst (clientDo env bc' w' (via @ [req]) nxt') = Inr fin"
  proof (rule Suc.IH)
    show "\<forall>k<n. \<forall>rq. \<exists>resp nxt. roundTrip env (sent w' + k) rq = Redirect resp nxt"
    proof (intro allI impI)
      fix k rq assume "k < n"
      then have "Suc k < Suc n" by simp
      with Suc.prems(1) obtain resp nxt where "roundTrip env (sent w + Suc k) rq = Redirect resp nxt"
        by blast
      then show "\<exists>resp nxt. roundTrip env (sent w' + k) rq = Redirect resp nxt" using s by simp
    qed
    show "\<forall>rq. roundTrip env (sent w' + n) rq = Final fin"
      using Suc.prems(2) s by simp
    show "length (via @ [req]) + n < 10" using Suc.prems(3) by simp
  qed
  then show ?case using rt cr e by (simp add: clientDo.simps [of env bc w via req])
qed

lemma clientDo_stops:
  assumes "\<forall>k<10 - length via. \<forall>rq. \<exists>resp nxt. roundTrip env (sent w + k) rq = Redirect resp nxt"
      and "d = 9 - length via" and "length via < 10"
  shows "fst (clientDo env bc w via req) = Inl (UrlError StoppedAfter10Redirects)"
  using assms
proof (induction d arbitrary: bc w via req)
  case 0
  then have len: "length via = 9" by simp
  have "0 < 10 - length via" using len by simp
  with "0.prems"(1) have "\<exists>resp nxt. roundTrip env (sent w + 0) req = Redirect resp nxt" by blast
  then obtain resp nxt where rt: "roundTrip env (sent w) req = Redirect resp nxt" by auto
  have "length (via @ [req]) \<ge> 10" using len by simp
  then show ?case using rt by (simp add: clientDo.simps [of env bc w via req] checkRedirect_stops)
next
  case (Suc d)
  then have len: "length via < 9" by simp
  have "0 < 10 - length via" using len by simp
  with Suc.prems(1) have "\<exists>resp nxt. roundTrip env (sent w + 0) req = Redirect resp nxt" by blast
  then obtain resp nxt where rt: "roundTrip env (sent w) req = Redirect resp nxt" by auto
  obtain e nxt' bc' w' where cr:
    "checkRedirect env bc (w\<lparr>sent := sent w + 1\<rparr>) nxt (via @ [req]) = (e, nxt', bc', w')"
    by (metis prod_cases4)
  have "length (via @ [req]) < 10" using len by simp
  then have e: "e = None" using checkRedirect_None [of "via @ [req]" env bc "w\<lparr>sent := sent w + 1\<rparr>" nxt] cr by simp
  have s: "sent w' = sent w + 1" using checkRedirect_sent [OF cr] by simp
  have "fst (clientDo env bc' w' (via @ [req]) nxt') = Inl (UrlError StoppedAfter10Redirects)"
  proof (rule Suc.IH)
    show "\<forall>k<10 - length (via @ [req]). \<forall>rq. \<exists>resp nxt. roundTrip env (sent w' + k) rq = Redirect resp nxt"
    proof (intro allI impI)
      fix k rq assume "k < 10 - length (via @ [req])"
      then have "Suc k < 10 - length via" by simp
      then obtain resp nxt where "roundTrip env (sent w + Suc k) rq = Redirect resp nxt"
        using Suc.prems(1) by blast
      then show "\<exists>resp nxt. roundTrip env (sent w' + k) rq = Redirect resp nxt" using s by simp
    qed
    show "d = 9 - length (via @ [req])" using Suc.prems(2) by simp
    show "length (via @ [req]) < 10" using len by simp
  qed
  then show ?case using rt cr e by (simp add: clientDo.simps [of env bc w via req])
qed

text \<open>
  Claim C3, as the code has it. \<open>checkRedirect\<close> is called with the requests made so
  far and refuses when there are ten of them. So when the server answers the first \<open>n\<close>
  requests of an exchange with a redirect and the next one with a final response, \<open>Do\<close>
  returns that response if \<open>n\<close> is at most 9 (ten requests in all) and fails with
  "stopped after 10 redirects" if \<open>n\<close> is 10 or more: the tenth redirect is not followed.
\<close>

theorem C3_redirect_limit:
  assumes "\<forall>k<n. \<forall>rq. \<exists>resp nxt. roundTrip env (sent w + k) rq = Redirect resp nxt"
      and "\<forall>rq. roundTrip env (sent w + n) rq = Final fin"
  shows "fst (Do env bc w req options) =
           (if n \<le> 9 then Inr fin else Inl (UrlError StoppedAfter10Redirects))"
proof (cases "n \<le> 9")
  case True
  have "fst (clientDo env (bc\<lparr>headerBuilder := requestContext bc options\<rparr>) (w\<lparr>built := built w + 1\<rparr>) []
             (stampRequest env bc w req options)) = Inr fin"
    by (rule clientDo_follows [where n = n]) (use assms True in simp_all)
  then show ?thesis using True by (simp add: Do_result)
next
  case False
  have "fst (clientDo env (bc\<lparr>headerBuilder := requestContext bc options\<rparr>) (w\<lparr>built := built w + 1\<rparr>) []
             (stampRequest env bc w req options)) = Inl (UrlError StoppedAfter10Redirects)"
    by (rule clientDo_stops [where d = 9]) (use assms False in simp_all)
  then show ?thesis using False by (simp add: Do_result)
qed

theorem C3_redirect_limit_witness:
  "fst (Do (chainEnv 9) (NewBrowserClient exampleProfile) startWorld (getRequest ''https://example.com/'') [])
     = Inr \<lparr>StatusCode = 200, Payload = ''done''\<rparr>"
  using C3_redirect_limit [of 9 "chainEnv 9" startWorld "\<lparr>StatusCode = 200, Payload = ''done''\<rparr>"
      "NewBrowserClient exampleProfile" "getRequest ''https://example.com/''" "[]"]
  by (simp add: chainEnv_def startWorld_def)

text \<open>
  The claim as stated fails at a chain of exactly ten redirects: the exchange does not
  complete, it ends with the hop-limit error.
\<close>

theorem C3_ten_redirects_counterexample:
  "fst (Do (chainEnv 10) (NewBrowserClient exampleProfile) startWorld (getRequest ''https://example.com/'') [])
     = Inl (UrlError StoppedAfter10Redirects)"
proof -
  have "fst (clientDo (chainEnv 10)
          ((NewBrowserClient exampleProfile)\<lparr>headerBuilder := requestContext (NewBrowserClient exampleProfile) []\<rparr>)
          (startWorld\<lparr>built := built startWorld + 1\<rparr>) []
          (stampRequest (chainEnv 10) (NewBrowserClient exampleProfile) startWorld (getRequest ''https://example.com/'') []))
        = Inl (UrlError StoppedAfter10Redirects)"
    by (rule clientDo_stops [where d = 9]) (simp_all add: chainEnv_def startWorld_def)
  then show ?thesis by (simp add: Do_result)
qed


section \<open>Retries\<close>

text \<open>
  What holds of every call: a response that \<open>GetWithRetry\<close> returns has a status below
  500, and an error that it returns is the one made after the loop, with the retry count.
\<close>

lemma retryLoop_result:
  "(case fst (retryLoop env url maxRetries options i lastErr backoff bc w) of
      Inr resp \<Rightarrow> StatusCode resp < 500
    | Inl err \<Rightarrow> \<exists>e. err = FailedAfterRetries maxRetries e)"
proof (induction env url maxRetries options i lastErr backoff bc w rule: retryLoop.induct)
  case (1 env url maxRetries options i lastErr backoff bc w)
  show ?case
  proof (cases "i \<le> maxRetries")
    case False
    then show ?thesis by (simp add: retryLoop.simps [of env url maxRetries options i])
  next
    case le: True
    let ?out = "Get env bc w url options"
    show ?thesis
    proof (cases "attemptDone (fst ?out)")
      case True
      then have "retryLoop env url maxRetries options i lastErr backoff bc w = ?out"
        using le by (subst retryLoop.simps) (simp add: Let_def)
      then show ?thesis using True by (auto simp add: attemptDone_def split: sum.splits)
    next
      case nd: False
      show ?thesis
      proof (cases "i < maxRetries")
        case True
        have "retryLoop env url maxRetries options i lastErr backoff bc w =
            retryLoop env url maxRetries options (i + 1) (attemptErr (fst ?out))
              (if backoff * 2 > 30 then 30 else backoff * 2) (fst (snd ?out))
              ((snd (snd ?out))\<lparr>slept := slept (snd (snd ?out)) @ [backoff]\<rparr>)"
          using le nd True by (subst retryLoop.simps) (simp add: Let_def)
        then show ?thesis using "1.IH"(1) [OF le refl refl refl nd True] by simp
      next
        case False
        have "retryLoop env url maxRetries options i lastErr backoff bc w =
            retryLoop env url maxRetries options (i + 1) (attemptErr (fst ?out)) backoff
              (fst (snd ?out)) (snd (snd ?out))"
          using le nd False by (subst retryLoop.simps) (simp add: Let_def)
        then show ?thesis using "1.IH"(2) [OF le refl refl refl nd False] by simp
      qed
    qed
  qed
qed

lemma GetWithRetry_result:
  "(case fst (GetWithRetry env bc w url maxRetries options) of
      Inr resp \<Rightarrow> StatusCode resp < 500
    | Inl err \<Rightarrow> \<exists>e. err = FailedAfterRetries maxRetries e)"
  unfolding GetWithRetry_def by (rule retryLoop_result)

text \<open>
  Claim C4 at a failing input. With \<open>maxRetries = 1\<close>, the first attempt fails in the
  transport with "connection refused" and the retry is answered with status 503. The
  loop overwrites \<open>lastErr\<close> with the nil error of the second attempt, so the error
  returned after the retries wraps nil and the request-level error of the first attempt
  is lost.
\<close>

theorem C4_last_error_lost:
  "fst (GetWithRetry flakyEnv bc startWorld url 1 options) = Inl (FailedAfterRetries 1 None)
   \<and> fst (Get flakyEnv bc startWorld url options) = Inl (UrlError (SendFailed ''connection refused''))"
proof -
  have g1: "Get flakyEnv bc startWorld url options =
      (Inl (UrlError (SendFailed ''connection refused'')), bc\<lparr>headerBuilder := requestContext bc options\<rparr>,
       \<lparr>sent = 1, built = 1, slept = []\<rparr>)"
    by (simp add: Get_def Do_eq clientDo.simps flakyEnv_def startWorld_def)
  have g2: "fst (Get flakyEnv bc' w url options) = Inr \<lparr>StatusCode = 503, Payload = []\<rparr>"
    if "sent w \<noteq> 0" for bc' w
    using that by (simp add: Get_def Do_result clientDo.simps flakyEnv_def)
  show ?thesis
    unfolding GetWithRetry_def
    by (simp add: retryLoop.simps [of _ _ _ _ 0] retryLoop.simps [of _ _ _ _ 1] retryLoop.simps [of _ _ _ _ 2]
          g1 g2 attemptDone_def attemptErr_def Let_def)
qed

section \<open>Generated header sets\<close>

lemma generatedKeys_familyKeys: "generatedKeys = familyKeys @ [''DNT'', ''Cache-Control'']"
  by (simp add: generatedKeys_def familyKeys_def)

lemma familyKeys_mem:
  "''User-Agent'' \<in> set familyKeys" "''Accept-Language'' \<in> set familyKeys"
  "''Connection'' \<in> set familyKeys" "''Accept'' \<in> set familyKeys"
  "''Accept-Encoding'' \<in> set familyKeys" "''Sec-Ch-Ua'' \<in> set familyKeys"
  "''Sec-Ch-Ua-Mobile'' \<in> set familyKeys" "''Sec-Ch-Ua-Platform'' \<in> set familyKeys"
  "''Sec-Fetch-Site'' \<in> set familyKeys" "''Sec-Fetch-Mode'' \<in> set familyKeys"
  "''Sec-Fetch-Dest'' \<in> set familyKeys" "''Sec-Fetch-User'' \<in> set familyKeys"
  "''Upgrade-Insecure-Requests'' \<in> set familyKeys"
  "''Sec-Ch-Ua-Platform-Version'' \<in> set familyKeys" "''TE'' \<in> set familyKeys"
  "''Referer'' \<in> set familyKeys" "''Origin'' \<in> set familyKeys"
  by (simp_all add: familyKeys_def)

lemma familyKeys_not_random: "''DNT'' \<notin> set familyKeys" "''Cache-Control'' \<notin> set familyKeys"
  by (simp_all add: familyKeys_def)

lemma canonical_generatedKeys:
  "\<forall>k \<in> set generatedKeys. CanonicalMIMEHeaderKey k = k \<or> CanonicalMIMEHeaderKey k \<notin> set generatedKeys"
  by code_simp

lemma generatedKeys_mem:
  "''DNT'' \<in> set generatedKeys" "''Cache-Control'' \<in> set generatedKeys"
  "set familyKeys \<subseteq> set generatedKeys"
  by (auto simp add: generatedKeys_familyKeys)

lemma keys_update: "fst ` set (AList.update k v al) = insert k (fst ` set al)"
  by (simp add: AList.dom_update)

lemma keys_addChromeHeaders:
  "fst ` set (fst (addChromeHeaders hb h r)) \<subseteq> fst ` set h \<union> set familyKeys"
  by (simp add: addChromeHeaders_def Let_def keys_update familyKeys_mem Float32_def subset_insertI2)

lemma keys_addFirefoxHeaders:
  "fst ` set (fst (addFirefoxHeaders hb h r)) \<subseteq> fst ` set h \<union> set familyKeys"
  by (simp add: addFirefoxHeaders_def Let_def keys_update familyKeys_mem Float32_def subset_insertI2)

lemma keys_addSafariHeaders:
  "fst ` set (fst (addSafariHeaders hb h r)) \<subseteq> fst ` set h \<union> set familyKeys"
  by (simp add: addSafariHeaders_def Let_def keys_update familyKeys_mem subset_insertI2)

lemma keys_commonHeaders: "fst ` set (commonHeaders hb req browser) \<subseteq> set familyKeys"
  by (simp add: commonHeaders_def Let_def keys_update familyKeys_mem)

lemma keys_browserHeaders:
  "fst ` set (fst (browserHeaders hb browser h r)) \<subseteq> fst ` set h \<union> set familyKeys"
proof -
  have "browserHeaders hb browser h r = addChromeHeaders hb h r
      \<or> browserHeaders hb browser h r = addFirefoxHeaders hb h r
      \<or> browserHeaders hb browser h r = addSafariHeaders hb h r
      \<or> browserHeaders hb browser h r = (h, r)"
    by (simp add: browserHeaders_def)
  then show ?thesis
    using keys_addChromeHeaders [of hb h r] keys_addFirefoxHeaders [of hb h r]
      keys_addSafariHeaders [of hb h r]
    by (elim disjE) simp_all
qed

lemma keys_conditionalHeaders:
  "fst ` set (conditionalHeaders hb h) \<subseteq> fst ` set h \<union> set familyKeys"
  by (simp add: conditionalHeaders_def Let_def keys_update familyKeys_mem subset_insertI2)

lemma keys_randomHeaders:
  "fst ` set (randomHeaders h r) \<subseteq> fst ` set h \<union> set generatedKeys"
  by (simp add: randomHeaders_def Let_def Float32_def keys_update generatedKeys_mem(1,2) subset_insertI2)

lemma keys_beforeRandom:
  "fst ` set (conditionalHeaders hb (fst (browserHeaders hb browser (commonHeaders hb req browser) r)))
     \<subseteq> set familyKeys"
proof -
  let ?b = "fst (browserHeaders hb browser (commonHeaders hb req browser) r)"
  have "fst ` set ?b \<subseteq> fst ` set (commonHeaders hb req browser) \<union> set familyKeys"
    by (rule keys_browserHeaders)
  then have b: "fst ` set ?b \<subseteq> set familyKeys"
    using keys_commonHeaders [of hb req browser] by (meson Un_least order_refl order_trans)
  have "fst ` set (conditionalHeaders hb ?b) \<subseteq> fst ` set ?b \<union> set familyKeys"
    by (rule keys_conditionalHeaders)
  then show ?thesis using b by (meson Un_least order_refl order_trans)
qed

lemma generateHeaders_eq:
  "generateHeaders hb req browser r =
     randomHeaders (conditionalHeaders hb (fst (browserHeaders hb browser (commonHeaders hb req browser) r)))
       (snd (browserHeaders hb browser (commonHeaders hb req browser) r))"
  by (simp add: generateHeaders_def case_prod_beta)

lemma keys_generateHeaders:
  "fst ` set (generateHeaders hb req browser r) \<subseteq> set generatedKeys"
proof -
  let ?h = "conditionalHeaders hb (fst (browserHeaders hb browser (commonHeaders hb req browser) r))"
  let ?r = "snd (browserHeaders hb browser (commonHeaders hb req browser) r)"
  have "fst ` set (randomHeaders ?h ?r) \<subseteq> fst ` set ?h \<union> set generatedKeys"
    by (rule keys_randomHeaders)
  also have "\<dots> \<subseteq> set generatedKeys"
    using keys_beforeRandom [of hb browser req r] generatedKeys_mem(3)
    by (meson Un_least order_refl order_trans)
  finally show ?thesis by (simp only: generateHeaders_eq)
qed

lemma distinct_update: "distinct (map fst al) \<Longrightarrow> distinct (map fst (AList.update k v al))"
  by (rule AList.distinct_update)

lemma distinct_generateHeaders: "distinct (map fst (generateHeaders hb req browser r))"
proof -
  have c: "distinct (map fst (commonHeaders hb req browser))"
    by (simp add: commonHeaders_def Let_def AList.distinct_update)
  have a: "distinct (map fst (fst (addChromeHeaders hb h r)))"
    and f: "distinct (map fst (fst (addFirefoxHeaders hb h r)))"
    and s: "distinct (map fst (fst (addSafariHeaders hb h r)))" if "distinct (map fst h)" for h
    using that
    by (simp_all add: addChromeHeaders_def addFirefoxHeaders_def addSafariHeaders_def Let_def
          Float32_def AList.distinct_update)
  have b: "distinct (map fst (fst (browserHeaders hb browser h r)))" if "distinct (map fst h)" for h
    using that a [of h] f [of h] s [of h] by (simp add: browserHeaders_def)
  have k: "distinct (map fst (conditionalHeaders hb h))" if "distinct (map fst h)" for h
    using that by (simp add: conditionalHeaders_def Let_def AList.distinct_update)
  have d: "distinct (map fst (randomHeaders h r'))" if "distinct (map fst h)" for h r'
    using that by (simp add: randomHeaders_def Let_def Float32_def AList.distinct_update)
  show ?thesis
    using d [OF k [OF b [OF c]]] by (simp add: generateHeaders_def case_prod_beta)
qed

lemma rangeOrdered_sub:
  assumes "map_of h \<subseteq>\<^sub>m map_of headers"
  shows "map_of (rangeOrdered headers order h) \<subseteq>\<^sub>m map_of headers"
  using assms unfolding rangeOrdered_def
proof (induction order arbitrary: h)
  case Nil
  then show ?case by simp
next
  case (Cons key order)
  have "map_of (case map_of headers key of None \<Rightarrow> h | Some value \<Rightarrow> AList.update key value h)
          \<subseteq>\<^sub>m map_of headers"
    using Cons.prems by (auto simp add: map_le_def AList.update_conv' split: option.splits)
  then show ?case using Cons.IH by simp
qed

lemma rangeRest_step:
  assumes canon: "\<forall>k \<in> fst ` set headers. CanonicalMIMEHeaderKey k = k \<or> CanonicalMIMEHeaderKey k \<notin> fst ` set headers"
    and sub: "map_of h \<subseteq>\<^sub>m map_of headers"
    and kv: "map_of headers key = Some value"
  shows "map_of (if HeaderGet h key = [] then AList.update key value h else h) = (map_of h)(key \<mapsto> value)"
proof (cases "HeaderGet h key = []")
  case True
  then show ?thesis by (simp add: AList.update_conv')
next
  case False
  then obtain vs where g: "map_of h (CanonicalMIMEHeaderKey key) = Some vs"
    by (auto simp add: HeaderGet_def split: option.splits)
  then have "map_of headers (CanonicalMIMEHeaderKey key) = Some vs"
    using sub by (auto simp add: map_le_def dom_def)
  then have "CanonicalMIMEHeaderKey key \<in> fst ` set headers"
    by (metis map_of_SomeD fst_conv image_eqI)
  moreover have "key \<in> fst ` set headers"
    using kv by (metis map_of_SomeD fst_conv image_eqI)
  ultimately have "CanonicalMIMEHeaderKey key = key" using canon by blast
  then have "map_of h key = Some vs" using g by simp
  moreover then have "map_of headers key = Some vs" using sub by (auto simp add: map_le_def dom_def)
  ultimately have "map_of h key = Some value" using kv by simp
  then show ?thesis using False by (auto simp add: fun_upd_idem)
qed

lemma rangeRest_map_of:
  assumes canon: "\<forall>k \<in> fst ` set headers. CanonicalMIMEHeaderKey k = k \<or> CanonicalMIMEHeaderKey k \<notin> fst ` set headers"
    and dist: "distinct (map fst headers)"
    and vis: "set visited \<subseteq> set headers"
    and sub: "map_of h \<subseteq>\<^sub>m map_of headers"
  shows "map_of (rangeRest visited h) k =
           (if k \<in> fst ` set visited then map_of headers k else map_of h k)"
  using vis sub unfolding rangeRest_def
proof (induction visited arbitrary: h)
  case Nil
  then show ?case by simp
next
  case (Cons kv visited)
  obtain key "value" where kv: "kv = (key, value)" by (cases kv)
  have hv: "map_of headers key = Some value"
    using Cons.prems(1) dist kv by simp
  let ?h' = "if HeaderGet h key = [] then AList.update key value h else h"
  have m: "map_of ?h' = (map_of h)(key \<mapsto> value)"
    using canon Cons.prems(2) hv by (rule rangeRest_step)
  have sub': "map_of ?h' \<subseteq>\<^sub>m map_of headers"
    unfolding m using Cons.prems(2) hv by (auto simp add: map_le_def)
  have "map_of (fold (\<lambda>(key, value) h. if HeaderGet h key = [] then AList.update key value h else h) visited ?h') k
      = (if k \<in> fst ` set visited then map_of headers k else map_of ?h' k)"
    using Cons.IH [OF _ sub'] Cons.prems(1) by simp
  then show ?case unfolding m using hv kv by auto
qed

lemma BuildHeaders_map_of:
  "map_of (Header (BuildHeaders hb req r)) =
     map_of (generateHeaders hb req (detectBrowser (UserAgent (profile hb))) r)"
proof
  fix k
  let ?headers = "generateHeaders hb req (detectBrowser (UserAgent (profile hb))) r"
  obtain order where B: "Header (BuildHeaders hb req r) = rangeRest ?headers (rangeOrdered ?headers order [])"
    by (simp add: BuildHeaders_def Let_def)
  have canon: "\<forall>k \<in> fst ` set ?headers. CanonicalMIMEHeaderKey k = k \<or> CanonicalMIMEHeaderKey k \<notin> fst ` set ?headers"
    using canonical_generatedKeys keys_generateHeaders [of hb req "detectBrowser (UserAgent (profile hb))" r]
    by blast
  have sub: "map_of (rangeOrdered ?headers order []) \<subseteq>\<^sub>m map_of ?headers"
    by (rule rangeOrdered_sub) simp
  have "map_of (rangeRest ?headers (rangeOrdered ?headers order [])) k =
      (if k \<in> fst ` set ?headers then map_of ?headers k else map_of (rangeOrdered ?headers order []) k)"
    using canon distinct_generateHeaders subset_refl sub by (rule rangeRest_map_of)
  also have "\<dots> = map_of ?headers k"
    using sub by (auto simp add: map_le_def dom_def map_of_eq_None_iff [symmetric] split: option.splits)
  finally show "map_of (Header (BuildHeaders hb req r)) k = map_of ?headers k" using B by simp
qed

lemma BuildHeaders_keys:
  "fst ` set (Header (BuildHeaders hb req r)) =
     fst ` set (generateHeaders hb req (detectBrowser (UserAgent (profile hb))) r)"
  using BuildHeaders_map_of [of hb req r] by (metis dom_map_of_conv_image_fst)

lemma mem_randomHeaders:
  "k \<noteq> ''DNT'' \<Longrightarrow> k \<noteq> ''Cache-Control'' \<Longrightarrow>
   k \<in> fst ` set (randomHeaders h r) \<longleftrightarrow> k \<in> fst ` set h"
  by (simp add: randomHeaders_def Let_def Float32_def keys_update)

lemma mem_conditionalHeaders:
  "k \<noteq> ''Referer'' \<Longrightarrow> k \<noteq> ''Origin'' \<Longrightarrow>
   k \<in> fst ` set (conditionalHeaders hb h) \<longleftrightarrow> k \<in> fst ` set h"
  by (simp add: conditionalHeaders_def Let_def keys_update)

lemma keys_safari:
  "fst ` set (fst (browserHeaders hb ''Safari'' (commonHeaders hb req ''Safari'') r)) =
     set [''User-Agent'', ''Accept-Language'', ''Connection'', ''Accept'', ''Accept-Encoding'']
     \<union> (if isNavigate hb then {''Upgrade-Insecure-Requests''} else {})"
  by (auto simp add: browserHeaders_def addSafariHeaders_def commonHeaders_def Let_def keys_update)

lemma mem_generateHeaders_safari:
  assumes "k \<notin> set [''DNT'', ''Cache-Control'', ''Referer'', ''Origin'']"
  shows "k \<in> fst ` set (generateHeaders hb req ''Safari'' r) \<longleftrightarrow>
         k \<in> set [''User-Agent'', ''Accept-Language'', ''Connection'', ''Accept'', ''Accept-Encoding'']
               \<union> (if isNavigate hb then {''Upgrade-Insecure-Requests''} else {})"
proof -
  have k: "k \<noteq> ''DNT''" "k \<noteq> ''Cache-Control''" "k \<noteq> ''Referer''" "k \<noteq> ''Origin''"
    using assms by auto
  show ?thesis
    unfolding generateHeaders_def case_prod_beta Let_def
    by (simp only: mem_randomHeaders [OF k(1,2)] mem_conditionalHeaders [OF k(3,4)] keys_safari)
qed

text \<open>
  Claim C5. For a profile that the Header Engine resolves to Safari, whatever the request,
  the context and the random source, the header set that \<open>BuildHeaders\<close> puts on the
  request has no key beginning with "Sec-Fetch-", and it has the key
  "Upgrade-Insecure-Requests" exactly when the context is a navigation.
\<close>

theorem C5_safari_headers:
  assumes "detectBrowser (UserAgent (profile hb)) = ''Safari''"
  shows "(\<forall>key \<in> fst ` set (Header (BuildHeaders hb req r)). \<not> HasPrefix key ''Sec-Fetch-'')
       \<and> (''Upgrade-Insecure-Requests'' \<in> fst ` set (Header (BuildHeaders hb req r)) \<longleftrightarrow> isNavigate hb)"
proof -
  have keys: "fst ` set (Header (BuildHeaders hb req r)) = fst ` set (generateHeaders hb req ''Safari'' r)"
    using BuildHeaders_keys [of hb req r] assms by simp
  have one: "\<not> HasPrefix key ''Sec-Fetch-''" if "key \<in> fst ` set (generateHeaders hb req ''Safari'' r)" for key
  proof (cases "key \<in> set [''DNT'', ''Cache-Control'', ''Referer'', ''Origin'']")
    case True
    then show ?thesis by auto
  next
    case False
    then have "key \<in> set [''User-Agent'', ''Accept-Language'', ''Connection'', ''Accept'', ''Accept-Encoding'']
               \<union> (if isNavigate hb then {''Upgrade-Insecure-Requests''} else {})"
      using that mem_generateHeaders_safari [of key hb req r] by blast
    then show ?thesis by (auto split: if_splits)
  qed
  have two: "''Upgrade-Insecure-Requests'' \<in> fst ` set (generateHeaders hb req ''Safari'' r) \<longleftrightarrow> isNavigate hb"
    by (subst mem_generateHeaders_safari) simp_all
  show ?thesis unfolding keys using one two by blast
qed

theorem C5_safari_headers_witness:
  "detectBrowser (UserAgent (profile (NewHeaderBuilder exampleProfile))) = ''Safari''
   \<and> ''Upgrade-Insecure-Requests'' \<in> fst ` set (Header (BuildHeaders (NewHeaderBuilder exampleProfile)
         (getRequest ''https://example.com/'') (\<lambda>i. 1 / 2)))
   \<and> \<not> HasPrefix ''Upgrade-Insecure-Requests'' ''Sec-Fetch-''"
proof -
  have s: "detectBrowser (UserAgent (profile (NewHeaderBuilder exampleProfile))) = ''Safari''"
    by (simp add: NewHeaderBuilder_def exampleProfile_def userAgents_def detectBrowser_def)
  have n: "isNavigate (NewHeaderBuilder exampleProfile)"
    by (simp add: NewHeaderBuilder_def)
  show ?thesis
    using C5_safari_headers [OF s, of "getRequest ''https://example.com/''" "\<lambda>i. 1 / 2"] s n
    by blast
qed

section \<open>Random headers\<close>

lemma snd_addChromeHeaders: "snd (addChromeHeaders hb h r) = (\<lambda>i. r (Suc i))"
  by (simp add: addChromeHeaders_def Let_def Float32_def)

lemma snd_addFirefoxHeaders: "snd (addFirefoxHeaders hb h r) = (\<lambda>i. r (Suc i))"
  by (simp add: addFirefoxHeaders_def Let_def Float32_def)

lemma snd_browserHeaders:
  "snd (browserHeaders hb browser h r) = (\<lambda>i. r (i + familyDraws browser))"
  by (simp add: browserHeaders_def familyDraws_def snd_addChromeHeaders snd_addFirefoxHeaders
        addSafariHeaders_def Let_def)

lemma randomHeaders_DNT:
  assumes "''DNT'' \<notin> fst ` set h"
  shows "map_of (randomHeaders h r) ''DNT'' = (if r 0 < 3 / 10 then Some [''1''] else None)"
  using assms
  by (simp add: randomHeaders_def Let_def Float32_def AList.update_conv' map_of_eq_None_iff keys_update)

lemma randomHeaders_CC:
  assumes "''Cache-Control'' \<notin> fst ` set h"
  shows "map_of (randomHeaders h r) ''Cache-Control'' =
           (if r 1 < 2 / 10 then Some [''no-cache'']
            else if r 2 < 4 / 10 then Some [''max-age=0''] else None)"
  using assms
  by (simp add: randomHeaders_def Let_def Float32_def AList.update_conv' map_of_eq_None_iff numeral_2_eq_2 keys_update)

lemma generateHeaders_DNT:
  "map_of (generateHeaders hb req browser r) ''DNT'' =
     (if r (familyDraws browser) < 3 / 10 then Some [''1''] else None)"
proof -
  have "''DNT'' \<notin> fst ` set (conditionalHeaders hb (fst (browserHeaders hb browser (commonHeaders hb req browser) r)))"
    using keys_beforeRandom [of hb browser req r] familyKeys_not_random by blast
  then show ?thesis
    unfolding generateHeaders_eq by (simp add: randomHeaders_DNT snd_browserHeaders)
qed

lemma generateHeaders_CC:
  "map_of (generateHeaders hb req browser r) ''Cache-Control'' =
     (if r (familyDraws browser + 1) < 2 / 10 then Some [''no-cache'']
      else if r (familyDraws browser + 2) < 4 / 10 then Some [''max-age=0''] else None)"
proof -
  have "''Cache-Control'' \<notin> fst ` set (conditionalHeaders hb (fst (browserHeaders hb browser (commonHeaders hb req browser) r)))"
    using keys_beforeRandom [of hb browser req r] familyKeys_not_random by blast
  then show ?thesis
    unfolding generateHeaders_eq by (simp add: randomHeaders_CC snd_browserHeaders add.commute)
qed

lemma grid_less:
  assumes "0 < m"
  shows "(of_nat a / of_nat (10 * m) < (of_nat k :: rat) / 10) \<longleftrightarrow> a < k * m"
proof -
  have "(of_nat a / of_nat (10 * m) < (of_nat k :: rat) / 10) \<longleftrightarrow>
        (of_nat a * 10 < (of_nat k :: rat) * of_nat (10 * m))"
    using assms by (simp add: field_simps)
  also have "\<dots> \<longleftrightarrow> (of_nat (a * 10) :: rat) < of_nat (k * (10 * m))" by simp
  also have "\<dots> \<longleftrightarrow> a * 10 < k * (10 * m)" by (rule of_nat_less_iff)
  also have "\<dots> \<longleftrightarrow> a < k * m" by auto
  finally show ?thesis .
qed

lemma frequency_box:
  assumes "0 < m"
    and "\<And>a b c. a < 10 * m \<Longrightarrow> b < 10 * m \<Longrightarrow> c < 10 * m
            \<Longrightarrow> E (a, b, c) \<longleftrightarrow> a \<in> A \<and> b \<in> B \<and> c \<in> C"
    and "A \<subseteq> {..<10 * m}" and "B \<subseteq> {..<10 * m}" and "C \<subseteq> {..<10 * m}"
  shows "frequency (10 * m) E = of_nat (card A * card B * card C) / of_nat ((10 * m) ^ 3)"
proof -
  have "{t \<in> {..<10 * m} \<times> {..<10 * m} \<times> {..<10 * m}. E t} = A \<times> B \<times> C"
  proof (intro set_eqI iffI)
    fix t assume "t \<in> {t \<in> {..<10 * m} \<times> {..<10 * m} \<times> {..<10 * m}. E t}"
    then show "t \<in> A \<times> B \<times> C" using assms(2) by (cases t) auto
  next
    fix t assume t: "t \<in> A \<times> B \<times> C"
    obtain a b c where abc: "t = (a, b, c)" by (cases t)
    have "a < 10 * m" "b < 10 * m" "c < 10 * m" using t abc assms(3-5) by auto
    then show "t \<in> {t \<in> {..<10 * m} \<times> {..<10 * m} \<times> {..<10 * m}. E t}"
      using assms(2) [of a b c] t abc by simp
  qed
  then show ?thesis by (simp add: frequency_def card_cartesian_product mult.assoc)
qed

lemma drawn_at:
  "drawn N r n (a, b, c) n = of_nat a / of_nat N"
  "drawn N r n (a, b, c) (n + 1) = of_nat b / of_nat N"
  "drawn N r n (a, b, c) (n + 2) = of_nat c / of_nat N"
  by (simp_all add: drawn_def)

lemma grid_less_3: "0 < m \<Longrightarrow> (of_nat a / of_nat (10 * m) < (3 :: rat) / 10) \<longleftrightarrow> a < 3 * m"
  using grid_less [of m a 3] by simp

lemma grid_less_2: "0 < m \<Longrightarrow> (of_nat a / of_nat (10 * m) < (2 :: rat) / 10) \<longleftrightarrow> a < 2 * m"
  using grid_less [of m a 2] by simp

lemma grid_less_4: "0 < m \<Longrightarrow> (of_nat a / of_nat (10 * m) < (4 :: rat) / 10) \<longleftrightarrow> a < 4 * m"
  using grid_less [of m a 4] by simp

lemma box_ratio:
  assumes "0 < m"
  shows "(of_nat (i * m * (j * m) * (k * m)) :: rat) / of_nat ((10 * m) ^ 3) = of_nat (i * j * k) / 1000"
  using assms by (simp add: power3_eq_cube field_simps)

lemma if_Some_iff:
  "((if P then Some x else None) = Some y) \<longleftrightarrow> (P \<and> x = y)"
  "((if P then Some x else None) = None) \<longleftrightarrow> \<not> P"
  "((if P then Some x else if Q then Some z else None) = Some y) \<longleftrightarrow> (P \<and> x = y \<or> \<not> P \<and> Q \<and> z = y)"
  "((if P then Some x else if Q then Some z else None) = None) \<longleftrightarrow> (\<not> P \<and> \<not> Q)"
  by auto

lemma event_DNT:
  assumes "0 < m"
  shows "map_of (generateHeaders hb req browser (drawn (10 * m) r0 (familyDraws browser) (a, b, c))) ''DNT''
           = Some [''1''] \<longleftrightarrow> a < 3 * m"
  by (simp only: generateHeaders_DNT drawn_at if_Some_iff grid_less_3 [OF assms]) simp

lemma event_no_cache:
  assumes "0 < m"
  shows "map_of (generateHeaders hb req browser (drawn (10 * m) r0 (familyDraws browser) (a, b, c))) ''Cache-Control''
           = Some [''no-cache''] \<longleftrightarrow> b < 2 * m"
  by (simp only: generateHeaders_CC drawn_at if_Some_iff grid_less_2 [OF assms] grid_less_4 [OF assms]) simp

lemma event_max_age:
  assumes "0 < m"
  shows "map_of (generateHeaders hb req browser (drawn (10 * m) r0 (familyDraws browser) (a, b, c))) ''Cache-Control''
           = Some [''max-age=0''] \<longleftrightarrow> \<not> b < 2 * m \<and> c < 4 * m"
  by (simp only: generateHeaders_CC drawn_at if_Some_iff grid_less_2 [OF assms] grid_less_4 [OF assms]) simp

lemma event_absent:
  assumes "0 < m"
  shows "map_of (generateHeaders hb req browser (drawn (10 * m) r0 (familyDraws browser) (a, b, c))) ''Cache-Control''
           = None \<longleftrightarrow> \<not> b < 2 * m \<and> \<not> c < 4 * m"
  by (simp only: generateHeaders_CC drawn_at if_Some_iff grid_less_2 [OF assms] grid_less_4 [OF assms])

lemma freq_DNT:
  assumes "0 < m"
  shows "frequency (10 * m) (\<lambda>t. map_of (generateHeaders hb req browser
            (drawn (10 * m) r0 (familyDraws browser) t)) ''DNT'' = Some [''1'']) = 3 / 10"
proof -
  have "frequency (10 * m) (\<lambda>t. map_of (generateHeaders hb req browser
            (drawn (10 * m) r0 (familyDraws browser) t)) ''DNT'' = Some [''1''])
        = of_nat (card {..<3 * m} * card {..<10 * m} * card {..<10 * m}) / of_nat ((10 * m) ^ 3)"
    by (rule frequency_box [OF assms]) (simp_all add: event_DNT [OF assms])
  also have "\<dots> = 3 / 10" using box_ratio [OF assms, of 3 10 10] by simp
  finally show ?thesis .
qed

lemma freq_no_cache:
  assumes "0 < m"
  shows "frequency (10 * m) (\<lambda>t. map_of (generateHeaders hb req browser
            (drawn (10 * m) r0 (familyDraws browser) t)) ''Cache-Control'' = Some [''no-cache'']) = 2 / 10"
proof -
  have "frequency (10 * m) (\<lambda>t. map_of (generateHeaders hb req browser
            (drawn (10 * m) r0 (familyDraws browser) t)) ''Cache-Control'' = Some [''no-cache''])
        = of_nat (card {..<10 * m} * card {..<2 * m} * card {..<10 * m}) / of_nat ((10 * m) ^ 3)"
    by (rule frequency_box [OF assms]) (simp_all add: event_no_cache [OF assms])
  also have "\<dots> = 2 / 10" using box_ratio [OF assms, of 10 2 10] by simp
  finally show ?thesis .
qed

lemma freq_max_age:
  assumes "0 < m"
  shows "frequency (10 * m) (\<lambda>t. map_of (generateHeaders hb req browser
            (drawn (10 * m) r0 (familyDraws browser) t)) ''Cache-Control'' = Some [''max-age=0'']) = 32 / 100"
proof -
  have "frequency (10 * m) (\<lambda>t. map_of (generateHeaders hb req browser
            (drawn (10 * m) r0 (familyDraws browser) t)) ''Cache-Control'' = Some [''max-age=0''])
        = of_nat (card {..<10 * m} * card {2 * m..<10 * m} * card {..<4 * m}) / of_nat ((10 * m) ^ 3)"
    by (rule frequency_box [OF assms]) (auto simp add: event_max_age [OF assms])
  also have "\<dots> = 32 / 100" using box_ratio [OF assms, of 10 8 4] by simp
  finally show ?thesis .
qed

lemma freq_absent:
  assumes "0 < m"
  shows "frequency (10 * m) (\<lambda>t. map_of (generateHeaders hb req browser
            (drawn (10 * m) r0 (familyDraws browser) t)) ''Cache-Control'' = None) = 48 / 100"
proof -
  have "frequency (10 * m) (\<lambda>t. map_of (generateHeaders hb req browser
            (drawn (10 * m) r0 (familyDraws browser) t)) ''Cache-Control'' = None)
        = of_nat (card {..<10 * m} * card {2 * m..<10 * m} * card {4 * m..<10 * m}) / of_nat ((10 * m) ^ 3)"
    by (rule frequency_box [OF assms]) (auto simp add: event_absent [OF assms])
  also have "\<dots> = 48 / 100" using box_ratio [OF assms, of 10 8 6] by simp
  finally show ?thesis .
qed

lemma freq_DNT_and_no_cache:
  assumes "0 < m"
  shows "frequency (10 * m) (\<lambda>t.
            map_of (generateHeaders hb req browser (drawn (10 * m) r0 (familyDraws browser) t)) ''DNT'' = Some [''1'']
          \<and> map_of (generateHeaders hb req browser (drawn (10 * m) r0 (familyDraws browser) t)) ''Cache-Control''
              = Some [''no-cache'']) = 3 / 10 * (2 / 10)"
proof -
  have "frequency (10 * m) (\<lambda>t.
            map_of (generateHeaders hb req browser (drawn (10 * m) r0 (familyDraws browser) t)) ''DNT'' = Some [''1'']
          \<and> map_of (generateHeaders hb req browser (drawn (10 * m) r0 (familyDraws browser) t)) ''Cache-Control''
              = Some [''no-cache''])
        = of_nat (card {..<3 * m} * card {..<2 * m} * card {..<10 * m}) / of_nat ((10 * m) ^ 3)"
    by (rule frequency_box [OF assms]) (simp_all add: event_DNT [OF assms] event_no_cache [OF assms])
  also have "\<dots> = 3 / 10 * (2 / 10)" using box_ratio [OF assms, of 3 2 10] by simp
  finally show ?thesis .
qed


text \<open>
  Claim C6, as the code has it. Over a uniform random source (draws on a grid of
  \<open>10 m\<close> points), for every profile, request, context and family and whatever the
  other draws are: DNT is sent with frequency 3/10; Cache-Control is "no-cache" with
  frequency 2/10; otherwise a fresh draw is compared with 0.4, so Cache-Control is
  "max-age=0" with frequency 8/10 * 4/10 = 32/100 and absent with frequency 48/100; DNT
  and Cache-Control are independent (shown for DNT together with "no-cache").
\<close>

theorem C6_random_header_frequencies:
  assumes "0 < m"
  shows "frequency (10 * m) (\<lambda>t. map_of (generateHeaders hb req browser
            (drawn (10 * m) r0 (familyDraws browser) t)) ''DNT'' = Some [''1'']) = 3 / 10
       \<and> frequency (10 * m) (\<lambda>t. map_of (generateHeaders hb req browser
            (drawn (10 * m) r0 (familyDraws browser) t)) ''Cache-Control'' = Some [''no-cache'']) = 2 / 10
       \<and> frequency (10 * m) (\<lambda>t. map_of (generateHeaders hb req browser
            (drawn (10 * m) r0 (familyDraws browser) t)) ''Cache-Control'' = Some [''max-age=0'']) = 32 / 100
       \<and> frequency (10 * m) (\<lambda>t. map_of (generateHeaders hb req browser
            (drawn (10 * m) r0 (familyDraws browser) t)) ''Cache-Control'' = None) = 48 / 100
       \<and> frequency (10 * m) (\<lambda>t.
            map_of (generateHeaders hb req browser (drawn (10 * m) r0 (familyDraws browser) t)) ''DNT'' = Some [''1'']
          \<and> map_of (generateHeaders hb req browser (drawn (10 * m) r0 (familyDraws browser) t)) ''Cache-Control''
              = Some [''no-cache'']) = 3 / 10 * (2 / 10)"
  using freq_DNT [OF assms] freq_no_cache [OF assms] freq_max_age [OF assms] freq_absent [OF assms]
    freq_DNT_and_no_cache [OF assms]
  by blast

theorem C6_random_header_frequencies_witness:
  "(0 :: nat) < 1
   \<and> frequency 10 (\<lambda>t. map_of (generateHeaders (NewHeaderBuilder exampleProfile)
         (getRequest ''https://example.com/'') ''Safari'' (drawn 10 (\<lambda>i. 0) 0 t)) ''DNT'' = Some [''1'']) = 3 / 10"
  using C6_random_header_frequencies [of 1 "NewHeaderBuilder exampleProfile"
      "getRequest ''https://example.com/''" "''Safari''" "\<lambda>i. 0"]
  by (simp add: familyDraws_def)

text \<open>
  The claim as stated gives "max-age=0" a probability of about 0.2; on the grid of ten
  points the frequency is 32/100.
\<close>

theorem C6_max_age_counterexample:
  "frequency 10 (\<lambda>t. map_of (generateHeaders (NewHeaderBuilder exampleProfile)
         (getRequest ''https://example.com/'') ''Safari'' (drawn 10 (\<lambda>i. 0) 0 t)) ''Cache-Control''
       = Some [''max-age=0'']) = 32 / 100
   \<and> frequency 10 (\<lambda>t. map_of (generateHeaders (NewHeaderBuilder exampleProfile)
         (getRequest ''https://example.com/'') ''Safari'' (drawn 10 (\<lambda>i. 0) 0 t)) ''Cache-Control''
       = Some [''max-age=0'']) \<noteq> 2 / 10"
  using freq_max_age [of 1 "NewHeaderBuilder exampleProfile"
      "getRequest ''https://example.com/''" "''Safari''" "\<lambda>i. 0"]
  by (simp add: familyDraws_def)

section \<open>Stream reader\<close>

lemma splitLine_append:
  assumes "splitLine buf = Some (l, r)"
  shows "splitLine (buf @ ys) = Some (l, r @ ys)"
proof -
  let ?P = "\<lambda>c. c \<noteq> CHR 0x0A"
  from assms have nl: "CHR 0x0A \<in> set buf"
    and l: "l = takeWhile ?P buf @ [CHR 0x0A]"
    and r: "r = tl (dropWhile ?P buf)"
    by (simp_all add: splitLine_def split: if_splits)
  have t: "takeWhile ?P (buf @ ys) = takeWhile ?P buf"
    using nl by (simp add: takeWhile_append1)
  have d: "dropWhile ?P (buf @ ys) = dropWhile ?P buf @ ys"
    using nl by (simp add: dropWhile_append1)
  have ne: "dropWhile ?P buf \<noteq> []" using nl by (simp add: dropWhile_eq_Nil_conv)
  show ?thesis using nl l r t d ne by (simp add: splitLine_def)
qed

lemma splitLine_None: "splitLine buf = None \<longleftrightarrow> CHR 0x0A \<notin> set buf"
  by (simp add: splitLine_def)

lemma fillAndRead_spec:
  assumes "fillAndRead buf chs term n = ((line, err), rd')"
  shows "terminal rd' = term \<and>
         (case splitLine (buf @ concat chs) of
            Some (l, rest) \<Rightarrow> line = l \<and> err = None \<and> pendingText rd' = rest
          | None \<Rightarrow> line = buf @ concat chs \<and> err = Some term \<and> pendingText rd' = [])"
  using assms
proof (induction chs arbitrary: buf n)
  case Nil
  show ?case
  proof (cases "splitLine buf")
    case None
    then show ?thesis using Nil by (auto simp add: pendingText_def)
  next
    case (Some p)
    obtain l r where p: "p = (l, r)" by (cases p)
    then show ?thesis using Nil Some by (auto simp add: pendingText_def)
  qed
next
  case (Cons ch chs)
  show ?case
  proof (cases "splitLine buf")
    case None
    then have "fillAndRead (buf @ ch) chs term (n + int (length ch)) = ((line, err), rd')"
      using Cons.prems by simp
    from Cons.IH [OF this] show ?thesis by (auto split: option.splits)
  next
    case (Some p)
    obtain l r where p: "p = (l, r)" by (cases p)
    have "splitLine (buf @ concat (ch # chs)) = Some (l, r @ concat (ch # chs))"
      using Some p by (simp only: splitLine_append)
    then show ?thesis using Cons.prems Some p by (auto simp add: pendingText_def)
  qed
qed

lemma ReadString_spec:
  assumes "ReadString rd = ((line, err), rd')"
  shows "terminal rd' = terminal rd \<and>
         (case splitLine (pendingText rd) of
            Some (l, rest) \<Rightarrow> line = l \<and> err = None \<and> pendingText rd' = rest
          | None \<Rightarrow> line = pendingText rd \<and> err = Some (terminal rd) \<and> pendingText rd' = [])"
  using fillAndRead_spec [of "buffered rd" "upstream rd" "terminal rd" "counted rd" line err rd'] assms
  by (auto simp add: ReadString_def pendingText_def split: option.splits)

lemma StreamLoop_ceiling:
  "0 < MaxBytes config \<Longrightarrow> MaxBytes config \<le> counted rd \<Longrightarrow>
     StreamLoop config rd content = Inr \<lparr>BytesRead = counted rd, Content = content, FoundContent = False\<rparr>"
  by (simp add: StreamLoop.simps)

lemma StreamLoop_unlimited:
  assumes "MaxBytes config \<le> 0"
  shows "case throughFirst (stopsAt config) (linesOf (pendingText rd)) of
           Some shown \<Rightarrow>
             (\<exists>n. StreamLoop config rd content = Inr \<lparr>BytesRead = n, Content = content @ shown, FoundContent = True\<rparr>)
         | None \<Rightarrow>
             (case terminal rd of
                EOF \<Rightarrow> (\<exists>n. StreamLoop config rd content
                             = Inr \<lparr>BytesRead = n, Content = content @ pendingText rd, FoundContent = False\<rparr>)
              | Broken e \<Rightarrow> StreamLoop config rd content = Inl (ReadFailed e))"
  using assms
proof (induction config rd content rule: StreamLoop.induct)
  case (1 config rd content)
  obtain line err rd' where rs: "ReadString rd = ((line, err), rd')"
    by (cases "ReadString rd") auto
  note spec = ReadString_spec [OF rs]
  have nc: "\<not> (MaxBytes config > 0 \<and> counted rd \<ge> MaxBytes config)" using "1.prems" by simp
  show ?case
  proof (cases "splitLine (pendingText rd)")
    case None
    then have line: "line = pendingText rd" and err: "err = Some (terminal rd)"
      using spec by simp_all
    have ls: "linesOf (pendingText rd) = (if pendingText rd = [] then [] else [pendingText rd])"
      using None by (simp add: linesOf.simps [of "pendingText rd"])
    show ?thesis
    proof (cases "line \<noteq> [] \<and> stopsAt config line")
      case True
      then have "StreamLoop config rd content
          = Inr \<lparr>BytesRead = counted rd', Content = content @ line, FoundContent = True\<rparr>"
        using nc rs by (simp add: StreamLoop.simps [of config rd content] stopsAt_def)
      then show ?thesis using True ls line by auto
    next
      case False
      then have t: "throughFirst (stopsAt config) (linesOf (pendingText rd)) = None"
        using ls line by auto
      have "StreamLoop config rd content =
          (case terminal rd of
             EOF \<Rightarrow> Inr \<lparr>BytesRead = counted rd', Content = content @ line, FoundContent = False\<rparr>
           | Broken e \<Rightarrow> Inl (ReadFailed e))"
        using nc rs False err by (auto simp add: StreamLoop.simps [of config rd content] stopsAt_def split: ReadError.splits)
      then show ?thesis using t line by (auto split: ReadError.splits)
    qed
  next
    case (Some p)
    obtain l rest where p: "p = (l, rest)" by (cases p)
    have line: "line = l" and err: "err = None" and rest: "pendingText rd' = rest"
      and trm: "terminal rd' = terminal rd"
      using spec Some p by simp_all
    have whole: "pendingText rd = l @ rest" and lne: "l \<noteq> []"
      using splitLine_Some [of "pendingText rd" l rest] Some p by simp_all
    have ls: "linesOf (pendingText rd) = l # linesOf rest"
      using Some p by (simp add: linesOf.simps [of "pendingText rd"])
    show ?thesis
    proof (cases "stopsAt config l")
      case True
      then have "StreamLoop config rd content
          = Inr \<lparr>BytesRead = counted rd', Content = content @ l, FoundContent = True\<rparr>"
        using nc rs line lne by (simp add: StreamLoop.simps [of config rd content] stopsAt_def)
      then show ?thesis using True ls by auto
    next
      case False
      have step: "StreamLoop config rd content = StreamLoop config rd' (content @ l)"
        using nc rs line err lne False by (auto simp add: StreamLoop.simps [of config rd content] stopsAt_def)
      have IH: "case throughFirst (stopsAt config) (linesOf (pendingText rd')) of
           Some shown \<Rightarrow>
             (\<exists>n. StreamLoop config rd' (content @ line) = Inr \<lparr>BytesRead = n, Content = (content @ line) @ shown, FoundContent = True\<rparr>)
         | None \<Rightarrow>
             (case terminal rd' of
                EOF \<Rightarrow> (\<exists>n. StreamLoop config rd' (content @ line)
                             = Inr \<lparr>BytesRead = n, Content = (content @ line) @ pendingText rd', FoundContent = False\<rparr>)
              | Broken e \<Rightarrow> StreamLoop config rd' (content @ line) = Inl (ReadFailed e))"
      proof (rule "1.IH" [OF nc rs [symmetric] refl])
        show "\<not> (line \<noteq> [] \<and> StopOnContent config \<noteq> [] \<and> Contains line (StopOnContent config))"
          using False line by (simp add: stopsAt_def)
        show "err = None" by (rule err)
        show "MaxBytes config \<le> 0" by (rule "1.prems")
      qed
      have tf: "throughFirst (stopsAt config) (linesOf (pendingText rd))
          = map_option (\<lambda>further. l @ further) (throughFirst (stopsAt config) (linesOf rest))"
        using ls False by simp
      show ?thesis
      proof (cases "throughFirst (stopsAt config) (linesOf rest)")
        case None
        then show ?thesis
          using IH unfolding tf step rest trm line
          by (auto simp add: whole split: ReadError.splits)
      next
        case (Some shown)
        then show ?thesis
          using IH unfolding tf step rest trm line by auto
      qed
    qed
  qed
qed

lemma accounted_ceiling:
  "0 < MaxBytes config \<Longrightarrow> MaxBytes config \<le> n \<Longrightarrow>
     accounted config trm ls content (Inr \<lparr>BytesRead = n, Content = content, FoundContent = False\<rparr>)"
  unfolding accounted_def by (simp, intro exI [of _ "[]"]) simp

lemma accounted_hit:
  "stopsAt config l \<Longrightarrow>
     accounted config trm (l # ls) content (Inr \<lparr>BytesRead = n, Content = content @ l, FoundContent = True\<rparr>)"
  unfolding accounted_def by (simp, intro exI [of _ "[l]"]) simp

lemma accounted_eof:
  "\<forall>l \<in> set ls. \<not> stopsAt config l \<Longrightarrow>
     accounted config EOF ls content (Inr \<lparr>BytesRead = n, Content = content @ concat ls, FoundContent = False\<rparr>)"
  unfolding accounted_def by (simp only: sum.case, intro exI [of _ ls] exI [of _ "[]"]) simp

lemma accounted_broken:
  "\<forall>l \<in> set ls. \<not> stopsAt config l \<Longrightarrow> accounted config (Broken e) ls content (Inl (ReadFailed e))"
  unfolding accounted_def by simp

lemma accounted_step:
  assumes "\<not> stopsAt config l" and "accounted config trm ls (content @ l) out"
  shows "accounted config trm (l # ls) content out"
proof (cases out)
  case (Inl err)
  then show ?thesis using assms by (simp add: accounted_def)
next
  case (Inr res)
  then obtain pre post where p: "ls = pre @ post" "Content res = (content @ l) @ concat pre"
    and q: "if FoundContent res
            then pre \<noteq> [] \<and> stopsAt config (last pre) \<and> (\<forall>l \<in> set (butlast pre). \<not> stopsAt config l)
            else (\<forall>l \<in> set pre. \<not> stopsAt config l)
                 \<and> (0 < MaxBytes config \<and> MaxBytes config \<le> BytesRead res \<or> post = [] \<and> trm = EOF)"
    using assms(2) unfolding accounted_def by auto
  have "l # ls = (l # pre) @ post" using p by simp
  moreover have "Content res = content @ concat (l # pre)" using p by simp
  moreover have "if FoundContent res
            then l # pre \<noteq> [] \<and> stopsAt config (last (l # pre)) \<and> (\<forall>x \<in> set (butlast (l # pre)). \<not> stopsAt config x)
            else (\<forall>x \<in> set (l # pre). \<not> stopsAt config x)
                 \<and> (0 < MaxBytes config \<and> MaxBytes config \<le> BytesRead res \<or> post = [] \<and> trm = EOF)"
    using q assms(1) by (auto split: if_splits)
  ultimately show ?thesis unfolding accounted_def Inr by (simp only: sum.case) blast
qed

lemma StreamLoop_accounted:
  "accounted config (terminal rd) (linesOf (pendingText rd)) content (StreamLoop config rd content)"
proof (induction config rd content rule: StreamLoop.induct)
  case (1 config rd content)
  show ?case
  proof (cases "MaxBytes config > 0 \<and> counted rd \<ge> MaxBytes config")
    case True
    then show ?thesis by (simp add: StreamLoop.simps [of config rd content] accounted_ceiling)
  next
    case nc: False
    obtain line err rd' where rs: "ReadString rd = ((line, err), rd')"
      by (cases "ReadString rd") auto
    note spec = ReadString_spec [OF rs]
    show ?thesis
    proof (cases "splitLine (pendingText rd)")
      case None
      then have line: "line = pendingText rd" and err: "err = Some (terminal rd)"
        using spec by simp_all
      have ls: "linesOf (pendingText rd) = (if pendingText rd = [] then [] else [pendingText rd])"
        using None by (simp add: linesOf.simps [of "pendingText rd"])
      show ?thesis
      proof (cases "line \<noteq> [] \<and> stopsAt config line")
        case True
        then have "StreamLoop config rd content
            = Inr \<lparr>BytesRead = counted rd', Content = content @ line, FoundContent = True\<rparr>"
          using nc rs by (simp add: StreamLoop.simps [of config rd content] stopsAt_def)
        then show ?thesis using True ls line by (simp add: accounted_hit)
      next
        case False
        then have no: "\<forall>l \<in> set (linesOf (pendingText rd)). \<not> stopsAt config l"
          using ls line by auto
        have c: "concat (linesOf (pendingText rd)) = line" using ls line by simp
        show ?thesis
        proof (cases "terminal rd")
          case EOF
          then have "StreamLoop config rd content
              = Inr \<lparr>BytesRead = counted rd', Content = content @ concat (linesOf (pendingText rd)), FoundContent = False\<rparr>"
            using nc rs False err c by (auto simp add: StreamLoop.simps [of config rd content] stopsAt_def)
          then show ?thesis using EOF no by (simp only: accounted_eof)
        next
          case (Broken e)
          then have "StreamLoop config rd content = Inl (ReadFailed e)"
            using nc rs False err by (auto simp add: StreamLoop.simps [of config rd content] stopsAt_def)
          then show ?thesis using Broken no by (simp only: accounted_broken)
        qed
      qed
    next
      case (Some p)
      obtain l rest where p: "p = (l, rest)" by (cases p)
      have line: "line = l" and err: "err = None" and rest: "pendingText rd' = rest"
        and trm: "terminal rd' = terminal rd"
        using spec Some p by simp_all
      have lne: "l \<noteq> []"
        using splitLine_Some [of "pendingText rd" l rest] Some p by simp
      have ls: "linesOf (pendingText rd) = l # linesOf rest"
        using Some p by (simp add: linesOf.simps [of "pendingText rd"])
      show ?thesis
      proof (cases "stopsAt config l")
        case True
        then have "StreamLoop config rd content
            = Inr \<lparr>BytesRead = counted rd', Content = content @ l, FoundContent = True\<rparr>"
          using nc rs line lne by (simp add: StreamLoop.simps [of config rd content] stopsAt_def)
        then show ?thesis using True ls by (simp add: accounted_hit)
      next
        case False
        have step: "StreamLoop config rd content = StreamLoop config rd' (content @ l)"
          using nc rs line err lne False by (auto simp add: StreamLoop.simps [of config rd content] stopsAt_def)
        have "accounted config (terminal rd') (linesOf (pendingText rd')) (content @ line)
                (StreamLoop config rd' (content @ line))"
        proof (rule "1.IH" [OF nc rs [symmetric] refl])
          show "\<not> (line \<noteq> [] \<and> StopOnContent config \<noteq> [] \<and> Contains line (StopOnContent config))"
            using False line by (simp add: stopsAt_def)
          show "err = None" by (rule err)
        qed
        then have "accounted config (terminal rd) (linesOf rest) (content @ l) (StreamLoop config rd' (content @ l))"
          by (simp only: rest trm line)
        then show ?thesis unfolding step ls using False by (rule accounted_step [rotated])
      qed
    qed
  qed
qed

lemma fetchedBytes_0 [simp]: "fetchedBytes 0 cs = 0"
  by (cases cs) simp_all

lemma unfetched_0 [simp]: "unfetched 0 cs = cs"
  by (cases cs) simp_all

lemma fetchedBytes_all: "length (concat cs) \<le> n \<Longrightarrow> fetchedBytes n cs = length (concat cs)"
  by (induction cs arbitrary: n) auto

lemma fetchedBytes_unfetched: "fetchedBytes n cs + length (concat (unfetched n cs)) = length (concat cs)"
  by (induction cs arbitrary: n) auto

lemma fetchedBytes_covers: "n \<le> length (concat cs) \<Longrightarrow> n \<le> fetchedBytes n cs"
proof (induction cs arbitrary: n)
  case Nil
  then show ?case by simp
next
  case (Cons c cs)
  have "n - length c \<le> length (concat cs)" using Cons.prems by simp
  then have "n - length c \<le> fetchedBytes (n - length c) cs" by (rule Cons.IH)
  then have "n \<le> length c + fetchedBytes (n - length c) cs" by arith
  then show ?case by simp
qed

lemma fetchedBytes_add:
  "fetchedBytes (off + k) cs
     = fetchedBytes off cs + fetchedBytes (off + k - fetchedBytes off cs) (unfetched off cs)"
proof (induction cs arbitrary: off)
  case Nil
  show ?case by simp
next
  case (Cons c cs)
  show ?case
  proof (cases "off = 0")
    case True
    then show ?thesis by simp
  next
    case False
    show ?thesis
    proof (cases "length c \<le> off")
      case True
      then have "off + k - length c = (off - length c) + k" by simp
      then show ?thesis using False Cons.IH [of "off - length c"] True by simp
    next
      case le: False
      then have "off - length c = 0" by simp
      then show ?thesis using False by simp
    qed
  qed
qed

lemma unfetched_add:
  "unfetched (off + k) cs = unfetched (off + k - fetchedBytes off cs) (unfetched off cs)"
proof (induction cs arbitrary: off)
  case Nil
  show ?case by simp
next
  case (Cons c cs)
  show ?case
  proof (cases "off = 0")
    case True
    then show ?thesis by simp
  next
    case False
    show ?thesis
    proof (cases "length c \<le> off")
      case True
      then have "off + k - length c = (off - length c) + k" by simp
      then show ?thesis using False Cons.IH [of "off - length c"] True by simp
    next
      case le: False
      then have "off - length c = 0" by simp
      then show ?thesis using False by simp
    qed
  qed
qed

lemma splitLine_longer:
  assumes "splitLine buf = None" and "splitLine (buf @ ys) = Some (l, r)"
  shows "length buf < length l"
proof -
  let ?P = "\<lambda>c. c \<noteq> CHR 0x0A"
  have no: "\<forall>c \<in> set buf. ?P c" using assms(1) by (auto simp add: splitLine_def split: if_splits)
  have "l = takeWhile ?P (buf @ ys) @ [CHR 0x0A]"
    using assms(2) by (simp add: splitLine_def split: if_splits)
  moreover have "takeWhile ?P (buf @ ys) = buf @ takeWhile ?P ys"
    using no by (simp add: takeWhile_append2)
  ultimately show ?thesis by simp
qed

lemma splitLine_newline:
  assumes "splitLine s = Some (l, r)"
  shows "CHR 0x0A \<in> set l"
  using assms by (auto simp add: splitLine_def split: if_splits)

lemma fillAndRead_counted:
  assumes "fillAndRead buf chs term n = ((line, err), rd')"
  shows "case splitLine (buf @ concat chs) of
           Some (l, rest) \<Rightarrow>
             counted rd' = n + int (fetchedBytes (length l - length buf) chs)
             \<and> upstream rd' = unfetched (length l - length buf) chs
         | None \<Rightarrow> counted rd' = n + int (length (concat chs)) \<and> upstream rd' = []"
  using assms
proof (induction chs arbitrary: buf n)
  case Nil
  then show ?case by (auto split: option.splits)
next
  case (Cons ch chs)
  show ?case
  proof (cases "splitLine buf")
    case None
    then have rec: "fillAndRead (buf @ ch) chs term (n + int (length ch)) = ((line, err), rd')"
      using Cons.prems by simp
    show ?thesis
    proof (cases "splitLine (buf @ concat (ch # chs))")
      case n2: None
      then show ?thesis using Cons.IH [OF rec] by simp
    next
      case (Some p)
      obtain l r where p: "p = (l, r)" by (cases p)
      have "length buf < length l" using splitLine_longer [OF None] Some p by simp
      then have "length l - length buf \<noteq> 0"
        and "length l - length buf - length ch = length l - length (buf @ ch)" by simp_all
      then show ?thesis using Cons.IH [OF rec] Some p by simp
    qed
  next
    case (Some p)
    obtain l r where p: "p = (l, r)" by (cases p)
    have a: "splitLine (buf @ concat (ch # chs)) = Some (l, r @ concat (ch # chs))"
      using Some p by (simp only: splitLine_append)
    have "length l \<le> length buf" using splitLine_Some(1) [of buf l r] Some p by simp
    then show ?thesis using Cons.prems Some p a by auto
  qed
qed

lemma ReadString_counted:
  assumes "ReadString rd = ((line, err), rd')"
  shows "case splitLine (pendingText rd) of
           Some (l, rest) \<Rightarrow>
             counted rd' = counted rd + int (fetchedBytes (length l - length (buffered rd)) (upstream rd))
             \<and> upstream rd' = unfetched (length l - length (buffered rd)) (upstream rd)
         | None \<Rightarrow> counted rd' = counted rd + int (length (concat (upstream rd))) \<and> upstream rd' = []"
  using fillAndRead_counted [of "buffered rd" "upstream rd" "terminal rd" "counted rd" line err rd'] assms
  by (simp add: ReadString_def pendingText_def)

lemma StreamLoop_scanLines:
  assumes "counted rd = int (fetchedBytes off pieces)"
    and "upstream rd = unfetched off pieces"
    and "pendingText rd = drop off (concat pieces)"
    and "off \<le> length (concat pieces)"
  shows "StreamLoop config rd content
           = scanLines config pieces (terminal rd) off content (linesOf (pendingText rd))"
  using assms
proof (induction config rd content arbitrary: off rule: StreamLoop.induct)
  case (1 config rd content)
  note cnt = "1.prems"(1) and ups = "1.prems"(2) and pend = "1.prems"(3) and le = "1.prems"(4)
  have total: "fetchedBytes off pieces + length (concat (upstream rd)) = length (concat pieces)"
    using fetchedBytes_unfetched [of off pieces] ups by simp
  have cover: "off \<le> fetchedBytes off pieces" using le by (rule fetchedBytes_covers)
  have lp: "length (pendingText rd) = length (concat pieces) - off" using pend by simp
  have lb: "length (buffered rd) = fetchedBytes off pieces - off"
    using lp total cover by (simp add: pendingText_def)
  show ?case
  proof (cases "MaxBytes config > 0 \<and> counted rd \<ge> MaxBytes config")
    case True
    then have "StreamLoop config rd content
        = Inr \<lparr>BytesRead = counted rd, Content = content, FoundContent = False\<rparr>"
      by (simp add: StreamLoop.simps [of config rd content])
    moreover have "atCeiling config pieces off" using True cnt by (simp add: atCeiling_def)
    ultimately show ?thesis using cnt by (cases "linesOf (pendingText rd)") simp_all
  next
    case nc: False
    then have nac: "\<not> atCeiling config pieces off" using cnt by (simp add: atCeiling_def)
    obtain line err rd' where rs: "ReadString rd = ((line, err), rd')"
      by (cases "ReadString rd") auto
    note spec = ReadString_spec [OF rs]
    note cspec = ReadString_counted [OF rs]
    show ?thesis
    proof (cases "splitLine (pendingText rd)")
      case None
      then have line: "line = pendingText rd" and err: "err = Some (terminal rd)"
        using spec by simp_all
      have c': "counted rd' = int (length (concat pieces))"
        using cspec None cnt total by simp
      have ls: "linesOf (pendingText rd) = (if pendingText rd = [] then [] else [pendingText rd])"
        using None by (simp add: linesOf.simps [of "pendingText rd"])
      have nonl: "CHR 0x0A \<notin> set (pendingText rd)" using None by (simp add: splitLine_None)
      have full: "fetchedBytes (off + length (pendingText rd)) pieces = length (concat pieces)"
        using lp le by (simp add: fetchedBytes_all)
      show ?thesis
      proof (cases "line \<noteq> [] \<and> stopsAt config line")
        case True
        then have "StreamLoop config rd content
            = Inr \<lparr>BytesRead = counted rd', Content = content @ line, FoundContent = True\<rparr>"
          using nc rs by (simp add: StreamLoop.simps [of config rd content] stopsAt_def)
        then show ?thesis using True ls line nac c' full by simp
      next
        case False
        have "StreamLoop config rd content = atEnd pieces (terminal rd) (content @ line)"
          using nc rs False err c'
          by (auto simp add: StreamLoop.simps [of config rd content] stopsAt_def atEnd_def split: ReadError.splits)
        then show ?thesis using False ls line nac nonl by auto
      qed
    next
      case (Some p)
      obtain l rest where p: "p = (l, rest)" by (cases p)
      have line: "line = l" and err: "err = None" and rest: "pendingText rd' = rest"
        and trm: "terminal rd' = terminal rd"
        using spec Some p by simp_all
      have split: "pendingText rd = l @ rest" and lne: "l \<noteq> []"
        using splitLine_Some [of "pendingText rd" l rest] Some p by simp_all
      have nl: "CHR 0x0A \<in> set l" using splitLine_newline [of "pendingText rd" l rest] Some p by simp
      have ls: "linesOf (pendingText rd) = l # linesOf rest"
        using Some p by (simp add: linesOf.simps [of "pendingText rd"])
      have need: "length l - length (buffered rd) = off + length l - fetchedBytes off pieces"
        using lb cover by simp
      have c': "counted rd' = int (fetchedBytes (off + length l) pieces)"
        using cspec Some p cnt ups need fetchedBytes_add [of off "length l" pieces] by simp
      have u': "upstream rd' = unfetched (off + length l) pieces"
        using cspec Some p ups need unfetched_add [of off "length l" pieces] by simp
      have le': "off + length l \<le> length (concat pieces)"
        using lp split le by simp
      have p': "pendingText rd' = drop (off + length l) (concat pieces)"
      proof -
        have "drop (off + length l) (concat pieces) = drop (length l) (drop off (concat pieces))"
          by (simp add: add.commute)
        also have "\<dots> = drop (length l) (l @ rest)" by (simp only: pend [symmetric] split)
        also have "\<dots> = rest" by simp
        finally show ?thesis using rest by simp
      qed
      show ?thesis
      proof (cases "stopsAt config l")
        case True
        then have "StreamLoop config rd content
            = Inr \<lparr>BytesRead = counted rd', Content = content @ l, FoundContent = True\<rparr>"
          using nc rs line lne by (simp add: StreamLoop.simps [of config rd content] stopsAt_def)
        then show ?thesis using True ls nac c' by simp
      next
        case False
        have step: "StreamLoop config rd content = StreamLoop config rd' (content @ l)"
          using nc rs line err lne False by (auto simp add: StreamLoop.simps [of config rd content] stopsAt_def)
        have "StreamLoop config rd' (content @ line)
                = scanLines config pieces (terminal rd') (off + length l) (content @ line) (linesOf (pendingText rd'))"
        proof (rule "1.IH" [OF nc rs [symmetric] refl])
          show "\<not> (line \<noteq> [] \<and> StopOnContent config \<noteq> [] \<and> Contains line (StopOnContent config))"
            using False line by (simp add: stopsAt_def)
          show "err = None" by (rule err)
          show "counted rd' = int (fetchedBytes (off + length l) pieces)" by (rule c')
          show "upstream rd' = unfetched (off + length l) pieces" by (rule u')
          show "pendingText rd' = drop (off + length l) (concat pieces)" by (rule p')
          show "off + length l \<le> length (concat pieces)" by (rule le')
        qed
        then show ?thesis unfolding step ls using False nac nl by (simp add: rest trm line)
      qed
    qed
  qed
qed

lemma StreamResponse_scanLines:
  assumes "getResponseReader codecs resp = Inr body"
  shows "StreamResponse codecs resp config
           = scanLines config (chunks body) (ending body) 0 [] (linesOf (concat (chunks body)))"
proof -
  let ?config = "if BufferSize config \<le> 0 then config\<lparr>BufferSize := 8192\<rparr> else config"
  have s: "stopsAt ?config = stopsAt config" by (auto simp add: stopsAt_def fun_eq_iff)
  have a: "atCeiling ?config = atCeiling config" by (auto simp add: atCeiling_def fun_eq_iff)
  have eq: "scanLines ?config pieces trm off content ls = scanLines config pieces trm off content ls"
    for pieces trm off content ls
    by (induction ls arbitrary: off content) (simp_all only: scanLines.simps s a)
  have "StreamLoop ?config (newReader body) []
          = scanLines ?config (chunks body) (terminal (newReader body)) 0 [] (linesOf (pendingText (newReader body)))"
    by (rule StreamLoop_scanLines) (simp_all add: newReader_def pendingText_def)
  then show ?thesis using assms eq by (simp add: StreamResponse_def newReader_def pendingText_def)
qed

text \<open>
  Claim C8, as the code has it. The reader works line by line. Once the decoder has
  accepted the body, the result is exactly the result of scanning the lines of the
  decompressed text in order (\<open>scanLines\<close>): the scan stops without error before a
  line when the bytes fetched have reached a positive ceiling, it stops as found at the
  first line that contains the stop-substring, with the content through that line
  inclusive, and otherwise it runs to the end of the stream, where end-of-stream gives
  the whole text and any other read error is returned as the failure. Read off the
  result, this says: a success holds the text of some first lines; either the
  stop-substring fired, and then \<open>FoundContent\<close> is true and the content runs through
  the first line that contains the substring, inclusive; or no line read contains it,
  \<open>FoundContent\<close> is false, and the byte counter has reached the ceiling or the stream
  has ended with the whole text read. A failure is the read error, other than
  end-of-stream, that ended the stream, met before any line contained the substring. And
  whenever the counter has reached a positive ceiling as a line is about to be read, the
  loop stops there without error.
\<close>

theorem C8_stream_reader:
  assumes "getResponseReader codecs resp = Inr body"
  shows "StreamResponse codecs resp config
           = scanLines config (chunks body) (ending body) 0 [] (linesOf (concat (chunks body)))
       \<and> (case StreamResponse codecs resp config of
            Inl err \<Rightarrow>
              (\<exists>e. err = ReadFailed e \<and> ending body = Broken e)
              \<and> (\<forall>l \<in> set (linesOf (concat (chunks body))). \<not> stopsAt config l)
          | Inr res \<Rightarrow>
              (\<exists>pre post. linesOf (concat (chunks body)) = pre @ post \<and> Content res = concat pre
                 \<and> (if FoundContent res
                      then pre \<noteq> [] \<and> stopsAt config (last pre) \<and> (\<forall>l \<in> set (butlast pre). \<not> stopsAt config l)
                      else (\<forall>l \<in> set pre. \<not> stopsAt config l)
                           \<and> (0 < MaxBytes config \<and> MaxBytes config \<le> BytesRead res
                                \<or> post = [] \<and> ending body = EOF))))
       \<and> (\<forall>rd content. 0 < MaxBytes config \<and> MaxBytes config \<le> counted rd \<longrightarrow>
             StreamLoop config rd content
               = Inr \<lparr>BytesRead = counted rd, Content = content, FoundContent = False\<rparr>)"
proof -
  let ?config = "if BufferSize config \<le> 0 then config\<lparr>BufferSize := 8192\<rparr> else config"
  have s: "stopsAt ?config = stopsAt config" by (auto simp add: stopsAt_def fun_eq_iff)
  have m: "MaxBytes ?config = MaxBytes config" by simp
  have zero: "StreamResponse codecs resp config
           = scanLines config (chunks body) (ending body) 0 [] (linesOf (concat (chunks body)))"
    using assms by (rule StreamResponse_scanLines)
  have "accounted ?config (terminal (newReader body)) (linesOf (pendingText (newReader body))) []
          (StreamLoop ?config (newReader body) [])"
    by (rule StreamLoop_accounted)
  then have "accounted ?config (ending body) (linesOf (concat (chunks body))) []
          (StreamResponse codecs resp config)"
    using assms by (simp add: StreamResponse_def newReader_def pendingText_def)
  then have one: "(case StreamResponse codecs resp config of
            Inl err \<Rightarrow>
              (\<exists>e. err = ReadFailed e \<and> ending body = Broken e)
              \<and> (\<forall>l \<in> set (linesOf (concat (chunks body))). \<not> stopsAt config l)
          | Inr res \<Rightarrow>
              (\<exists>pre post. linesOf (concat (chunks body)) = pre @ post \<and> Content res = concat pre
                 \<and> (if FoundContent res
                      then pre \<noteq> [] \<and> stopsAt config (last pre) \<and> (\<forall>l \<in> set (butlast pre). \<not> stopsAt config l)
                      else (\<forall>l \<in> set pre. \<not> stopsAt config l)
                           \<and> (0 < MaxBytes config \<and> MaxBytes config \<le> BytesRead res
                                \<or> post = [] \<and> ending body = EOF))))"
    unfolding accounted_def s m append_Nil .
  have two: "\<forall>rd content. 0 < MaxBytes config \<and> MaxBytes config \<le> counted rd \<longrightarrow>
             StreamLoop config rd content
               = Inr \<lparr>BytesRead = counted rd, Content = content, FoundContent = False\<rparr>"
    by (simp add: StreamLoop_ceiling)
  show ?thesis by (intro conjI zero one two)
qed

lemma example_run:
  "StreamResponse exampleCodecs gzipSource \<lparr>StopOnContent = ''needle'', BufferSize = 0, MaxBytes = 0\<rparr>
     = Inr \<lparr>BytesRead = 47, Content = ''line one\<newline>line two\<newline>the needle is here\<newline>'', FoundContent = True\<rparr>"
  by code_simp

lemma example_scan_low_ceiling:
  "scanLines \<lparr>StopOnContent = ''needle'', BufferSize = 0, MaxBytes = 10\<rparr>
     [''line one\<newline>line '', ''two\<newline>the needle is here\<newline>line four\<newline>''] EOF 0 []
     (linesOf (concat [''line one\<newline>line '', ''two\<newline>the needle is here\<newline>line four\<newline>'']))
     = Inr \<lparr>BytesRead = 14, Content = ''line one\<newline>'', FoundContent = False\<rparr>"
  by code_simp

lemma example_scan_high_ceiling:
  "scanLines \<lparr>StopOnContent = ''needle'', BufferSize = 0, MaxBytes = 1000\<rparr>
     [''line one\<newline>line '', ''two\<newline>the needle is here\<newline>line four\<newline>''] EOF 0 []
     (linesOf (concat [''line one\<newline>line '', ''two\<newline>the needle is here\<newline>line four\<newline>'']))
     = Inr \<lparr>BytesRead = 47, Content = ''line one\<newline>line two\<newline>the needle is here\<newline>'', FoundContent = True\<rparr>"
  by code_simp

theorem C8_stream_reader_witness:
  "getResponseReader exampleCodecs gzipSource
     = Inr \<lparr>chunks = [''line one\<newline>line '', ''two\<newline>the needle is here\<newline>line four\<newline>''], ending = EOF\<rparr>
   \<and> StreamResponse exampleCodecs gzipSource \<lparr>StopOnContent = ''needle'', BufferSize = 0, MaxBytes = 0\<rparr>
     = Inr \<lparr>BytesRead = 47, Content = ''line one\<newline>line two\<newline>the needle is here\<newline>'', FoundContent = True\<rparr>
   \<and> (\<exists>pre post.
         linesOf (concat [''line one\<newline>line '', ''two\<newline>the needle is here\<newline>line four\<newline>'']) = pre @ post
         \<and> ''line one\<newline>line two\<newline>the needle is here\<newline>'' = concat pre
         \<and> pre \<noteq> []
         \<and> stopsAt \<lparr>StopOnContent = ''needle'', BufferSize = 0, MaxBytes = 0\<rparr> (last pre))
   \<and> StreamResponse exampleCodecs gzipSource \<lparr>StopOnContent = ''needle'', BufferSize = 0, MaxBytes = 10\<rparr>
     = Inr \<lparr>BytesRead = 14, Content = ''line one\<newline>'', FoundContent = False\<rparr>
   \<and> StreamResponse exampleCodecs gzipSource \<lparr>StopOnContent = ''needle'', BufferSize = 0, MaxBytes = 1000\<rparr>
     = Inr \<lparr>BytesRead = 47, Content = ''line one\<newline>line two\<newline>the needle is here\<newline>'', FoundContent = True\<rparr>"
proof -
  have g: "getResponseReader exampleCodecs gzipSource
     = Inr \<lparr>chunks = [''line one\<newline>line '', ''two\<newline>the needle is here\<newline>line four\<newline>''], ending = EOF\<rparr>"
    by code_simp
  have unlimited: "\<exists>pre post.
         linesOf (concat [''line one\<newline>line '', ''two\<newline>the needle is here\<newline>line four\<newline>'']) = pre @ post
         \<and> ''line one\<newline>line two\<newline>the needle is here\<newline>'' = concat pre
         \<and> pre \<noteq> []
         \<and> stopsAt \<lparr>StopOnContent = ''needle'', BufferSize = 0, MaxBytes = 0\<rparr> (last pre)"
    using C8_stream_reader [OF g, of "\<lparr>StopOnContent = ''needle'', BufferSize = 0, MaxBytes = 0\<rparr>",
        THEN conjunct2, THEN conjunct1]
    unfolding example_run
    by (simp del: concat.simps) blast
  have low: "StreamResponse exampleCodecs gzipSource \<lparr>StopOnContent = ''needle'', BufferSize = 0, MaxBytes = 10\<rparr>
     = Inr \<lparr>BytesRead = 14, Content = ''line one\<newline>'', FoundContent = False\<rparr>"
    using C8_stream_reader [OF g, of "\<lparr>StopOnContent = ''needle'', BufferSize = 0, MaxBytes = 10\<rparr>",
        THEN conjunct1]
    by (simp only: ByteStream.simps example_scan_low_ceiling)
  have high: "StreamResponse exampleCodecs gzipSource \<lparr>StopOnContent = ''needle'', BufferSize = 0, MaxBytes = 1000\<rparr>
     = Inr \<lparr>BytesRead = 47, Content = ''line one\<newline>line two\<newline>the needle is here\<newline>'', FoundContent = True\<rparr>"
    using C8_stream_reader [OF g, of "\<lparr>StopOnContent = ''needle'', BufferSize = 0, MaxBytes = 1000\<rparr>",
        THEN conjunct1]
    by (simp only: ByteStream.simps example_scan_high_ceiling)
  show ?thesis by (intro conjI g example_run unlimited low high)
qed

text \<open>
  The claim as stated lets the reader stop when the substring is seen in the content
  gathered so far. A substring that runs across a line break is in the gathered content
  after the second line, yet the reader goes on to the end and reports nothing found.
\<close>

theorem C8_split_substring_counterexample:
  "StreamResponse exampleCodecs plainSource \<lparr>StopOnContent = ''a\<newline>b'', BufferSize = 0, MaxBytes = 0\<rparr>
     = Inr \<lparr>BytesRead = 6, Content = ''a\<newline>b\<newline>c\<newline>'', FoundContent = False\<rparr>
   \<and> Contains ''a\<newline>b\<newline>'' ''a\<newline>b''"
  by code_simp

section \<open>Profile store\<close>

lemma sequential_run:
  "runSchedule seeds [0, 0, 0] (st, [AtLoad threadID]) =
     (snd (GetThreadProfile seeds st threadID), [Returned (fst (GetThreadProfile seeds st threadID))])"
  by (cases "threadProfiles st threadID") (simp_all add: GetThreadProfile_def Let_def)

lemma GetThreadProfile_cached:
  assumes "GetThreadProfile seeds st threadID = (p, st')"
  shows "GetThreadProfile seeds st' threadID = (p, st')"
  using assms by (auto simp add: GetThreadProfile_def Let_def split: option.splits)

text \<open>
  Claim C9 at a failing input. Two goroutines look up session 1 for the first time and
  are scheduled in turn: both \<open>Load\<close> calls miss, both generate a profile, both store.
  The first goroutine returns a Chrome profile, the second a Firefox profile at another
  address; the store keeps the second, so every later lookup returns a profile that
  differs from the one the first goroutine is using.
\<close>

theorem C9_concurrent_first_lookups:
  "runSchedule exampleSeeds [0, 1, 0, 1, 0, 1] (emptyStore, [AtLoad 1, AtLoad 1])
     = (\<lparr>threadProfiles = [1 \<mapsto> \<lparr>Ptr = 1, UserAgent = userAgents ! 5, Language = languages ! 1\<rparr>], allocated = 2\<rparr>,
        [Returned \<lparr>Ptr = 0, UserAgent = userAgents ! 0, Language = languages ! 0\<rparr>,
         Returned \<lparr>Ptr = 1, UserAgent = userAgents ! 5, Language = languages ! 1\<rparr>])
   \<and> userAgents ! 0 \<noteq> userAgents ! 5
   \<and> fst (GetThreadProfile exampleSeeds
             (fst (runSchedule exampleSeeds [0, 1, 0, 1, 0, 1] (emptyStore, [AtLoad 1, AtLoad 1]))) 1)
       = \<lparr>Ptr = 1, UserAgent = userAgents ! 5, Language = languages ! 1\<rparr>"
proof -
  have run: "runSchedule exampleSeeds [0, 1, 0, 1, 0, 1] (emptyStore, [AtLoad 1, AtLoad 1])
     = (\<lparr>threadProfiles = [1 \<mapsto> \<lparr>Ptr = 1, UserAgent = userAgents ! 5, Language = languages ! 1\<rparr>], allocated = 2\<rparr>,
        [Returned \<lparr>Ptr = 0, UserAgent = userAgents ! 0, Language = languages ! 0\<rparr>,
         Returned \<lparr>Ptr = 1, UserAgent = userAgents ! 5, Language = languages ! 1\<rparr>])"
    by (simp add: emptyStore_def exampleSeeds_def generateBrowserProfile_def
          userAgents_def languages_def)
  have ne: "userAgents ! 0 \<noteq> userAgents ! 5" by (simp add: userAgents_def)
  show ?thesis unfolding run using ne by (simp add: GetThreadProfile_def)
qed

end
